theory Spec2Isabelle
  imports Complex_Main "HOL-Library.FSet" "HOL-Library.Multiset"
begin

section \<open>Dates\<close>

text \<open>
  The optimizer works on JavaScript \<^verbatim>\<open>Date\<close> values through the date-fns library. A
  \<^verbatim>\<open>Date\<close> is its time value, the number of milliseconds since the epoch, read by
  \<^verbatim>\<open>getTime()\<close>. The model takes the local time zone to be UTC (the optimizer treats all
  dates as local calendar dates and leaves time zones aside), takes every date to be a valid date
  (the callers filter out invalid ones), and leaves the limits of the representable range aside.
  In that setting a calendar day is the time value divided by the length of a day, rounded down,
  and the date-fns functions are the arithmetic below.
\<close>

datatype Date = Date (getTime: int)

definition MS_PER_DAY :: int where
  "MS_PER_DAY = 86400000"

text \<open>The calendar day of a date: days since 1970-01-01.\<close>

definition dayNumber :: "Date \<Rightarrow> int" where
  "dayNumber d = getTime d div MS_PER_DAY"

text \<open>date-fns \<^verbatim>\<open>startOfDay\<close>: the same calendar day at 00:00:00.000.\<close>

definition startOfDay :: "Date \<Rightarrow> Date" where
  "startOfDay d = Date (dayNumber d * MS_PER_DAY)"

text \<open>date-fns \<^verbatim>\<open>addDays\<close>: the same time of day, \<open>n\<close> calendar days later.\<close>

definition addDays :: "Date \<Rightarrow> int \<Rightarrow> Date" where
  "addDays d n = Date (getTime d + n * MS_PER_DAY)"

text \<open>
  \<^verbatim>\<open>Date.prototype.getDay\<close>: 0 is Sunday, 6 is Saturday. 1970-01-01 was a Thursday (4).
\<close>

definition getDay :: "Date \<Rightarrow> int" where
  "getDay d = (dayNumber d + 4) mod 7"

definition isWeekend :: "Date \<Rightarrow> bool" where
  "isWeekend d = (getDay d = 0 \<or> getDay d = 6)"

definition isSameDay :: "Date \<Rightarrow> Date \<Rightarrow> bool" where
  "isSameDay a b = (startOfDay a = startOfDay b)"

definition isBefore :: "Date \<Rightarrow> Date \<Rightarrow> bool" where
  "isBefore a b = (getTime a < getTime b)"

text \<open>
  date-fns \<^verbatim>\<open>differenceInDays\<close>: the number of full days between two dates, rounded
  towards zero.
\<close>

definition differenceInDays :: "Date \<Rightarrow> Date \<Rightarrow> int" where
  "differenceInDays later earlier =
     (let t = getTime later - getTime earlier in sgn t * (\<bar>t\<bar> div MS_PER_DAY))"

text \<open>
  \<^verbatim>\<open>format(d, 'yyyy-MM-dd')\<close>: the key of a calendar day. The optimizer only stores
  these keys in sets and tests membership, and two dates have the same key exactly when they
  are on the same calendar day; the model takes the day number as the key.
\<close>

type_synonym DayKey = int

definition format_ymd :: "Date \<Rightarrow> DayKey" where
  "format_ymd d = dayNumber d"

section \<open>Numbers\<close>

text \<open>
  A JavaScript number is a double. The optimizer computes with integers only; an integer up
  to \<open>2\<^sup>5\<^sup>3\<close> in absolute value is a double, and beyond that the doubles are the multiples
  of a power of two: of \<open>2\<close> up to \<open>2\<^sup>5\<^sup>4\<close>, of \<open>4\<close> up to \<open>2\<^sup>5\<^sup>5\<close>, and so on.
  \<open>toDouble x\<close> is the double nearest to the integer \<open>x\<close>, the one with the even
  significand when two are equally near: the result of an addition or subtraction whose exact
  value is \<open>x\<close>. (The largest finite double is left aside.)
\<close>

function bitLength :: "int \<Rightarrow> nat" where
  "bitLength n = (if n \<le> 0 then 0 else Suc (bitLength (n div 2)))"
  by pat_completeness auto
termination
  by (relation "measure nat") auto

declare bitLength.simps [simp del]

definition doubleSpacing :: "int \<Rightarrow> int" where
  "doubleSpacing x = 2 ^ (bitLength \<bar>x\<bar> - 53)"

definition toDouble :: "int \<Rightarrow> int" where
  "toDouble x =
     (let u = doubleSpacing x; q = x div u; r = x mod u in
      if 2 * r < u then q * u
      else if 2 * r > u then (q + 1) * u
      else if even q then q * u else (q + 1) * u)"

section \<open>Types of the optimizer\<close>

text \<open>
  The fields that an opportunity and a recommendation share are a record of their own, so that
  both keep the field names of the source. The records take the type of dates as a parameter:
  the optimizer is modelled on valid dates first and on JavaScript dates, with Invalid Date,
  afterwards.
\<close>

record 'd Vacation =
  leaveDates :: "'d list"
  startDate :: 'd
  endDate :: 'd
  totalDays :: int

record 'd Opportunity = "'d Vacation" +
  bonusDays :: int
  efficiency :: rat

record 'd LeaveRecommendation = "'d Vacation" +
  leavesUsed :: int
  description :: string

record 'd OptimizationResult =
  recommendations :: "'d LeaveRecommendation list"
  optimizedLeaves :: "'d list"
  totalVacations :: int
  longestBreak :: int
  leavesRemaining :: int

section \<open>Calendar utilities\<close>

definition normalize :: "Date \<Rightarrow> Date" where
  "normalize d = startOfDay d"

definition isHoliday :: "Date \<Rightarrow> Date list \<Rightarrow> bool" where
  "isHoliday date holidays = list_ex (\<lambda>h. isSameDay h date) holidays"

definition isWorkingDay :: "Date \<Rightarrow> Date list \<Rightarrow> bool" where
  "isWorkingDay date holidays = (\<not> isWeekend date \<and> \<not> isHoliday date holidays)"

lemma MS_PER_DAY_pos: "0 < MS_PER_DAY"
  by (simp add: MS_PER_DAY_def)

lemma dayNumber_addDays: "dayNumber (addDays d n) = dayNumber d + n"
  using MS_PER_DAY_pos by (simp add: dayNumber_def addDays_def)

lemma dayNumber_startOfDay: "dayNumber (startOfDay d) = dayNumber d"
  using MS_PER_DAY_pos by (simp add: dayNumber_def startOfDay_def)

lemma getTime_startOfDay: "getTime (startOfDay d) = dayNumber d * MS_PER_DAY"
  by (simp add: startOfDay_def)

lemma getTime_addDays: "getTime (addDays d n) = getTime d + n * MS_PER_DAY"
  by (simp add: addDays_def)

lemma isSameDay_iff: "isSameDay a b \<longleftrightarrow> dayNumber a = dayNumber b"
  using MS_PER_DAY_pos by (simp add: isSameDay_def startOfDay_def)

lemma getDay_range: "0 \<le> getDay d \<and> getDay d < 7"
  by (simp add: getDay_def)

lemma getDay_prev: "getDay d \<noteq> 0 \<Longrightarrow> getDay (addDays d (-1)) = getDay d - 1"
  unfolding getDay_def dayNumber_addDays by presburger

lemma getDay_next: "getDay d \<noteq> 6 \<Longrightarrow> getDay (addDays d 1) = getDay d + 1"
  unfolding getDay_def dayNumber_addDays by presburger

text \<open>
  The loop of \<^verbatim>\<open>getDateRange\<close>: \<open>cur\<close> advances by one day while it is before the day
  after \<open>lst\<close>, the normalized end.
\<close>

function getDateRange_loop :: "Date \<Rightarrow> Date \<Rightarrow> Date list \<Rightarrow> Date list" where
  "getDateRange_loop cur lst res =
     (if isBefore cur (addDays lst 1)
      then getDateRange_loop (addDays cur 1) lst (res @ [cur])
      else res)"
  by pat_completeness auto

lemma getDateRange_loop_terminates: "All getDateRange_loop_dom"
proof (relation "measure (\<lambda>(cur, lst, res). nat (getTime lst + MS_PER_DAY - getTime cur))")
  show "wf (measure (\<lambda>(cur, lst, res). nat (getTime lst + MS_PER_DAY - getTime cur)))"
    by simp
next
  fix cur lst :: Date and res :: "Date list"
  assume "isBefore cur (addDays lst 1)"
  then show "((addDays cur 1, lst, res @ [cur]), (cur, lst, res))
      \<in> measure (\<lambda>(cur, lst, res). nat (getTime lst + MS_PER_DAY - getTime cur))"
    using MS_PER_DAY_pos by (simp add: isBefore_def getTime_addDays)
qed

termination getDateRange_loop
  by (rule getDateRange_loop_terminates)

definition getDateRange :: "Date \<Rightarrow> Date \<Rightarrow> Date list" where
  "getDateRange start end' = getDateRange_loop (normalize start) (normalize end') []"

section \<open>Rules\<close>

text \<open>
  The scan of \<^verbatim>\<open>exceedsMaxConsecutiveLeaves\<close> over the sorted dates: \<open>prev\<close> is
  \<^verbatim>\<open>sorted[i - 1]\<close>, the head of the list is \<^verbatim>\<open>sorted[i]\<close>.
\<close>

fun streakScan :: "Date \<Rightarrow> Date list \<Rightarrow> Date list \<Rightarrow> nat \<Rightarrow> nat \<Rightarrow> bool" where
  "streakScan prev [] holidays mx streak = False"
| "streakScan prev (cur # rest) holidays mx streak =
     (if differenceInDays cur prev = 1 \<and> isWorkingDay cur holidays
      then (if streak + 1 > mx then True else streakScan cur rest holidays mx (streak + 1))
      else streakScan cur rest holidays mx 1)"

text \<open>
  \<^verbatim>\<open>Array.prototype.sort\<close> is stable, and so is \<^const>\<open>sort_key\<close>; the comparator
  \<^verbatim>\<open>a.getTime() - b.getTime()\<close> sorts ascending by time value.
\<close>

definition exceedsMaxConsecutiveLeaves :: "Date list \<Rightarrow> Date list \<Rightarrow> nat \<Rightarrow> bool" where
  "exceedsMaxConsecutiveLeaves leaveDates' holidays mx =
     (case sort_key getTime (map normalize leaveDates') of
        [] \<Rightarrow> False
      | first # rest \<Rightarrow> streakScan first rest holidays mx 1)"

definition hasHolidayAnchor :: "Date list \<Rightarrow> Date list \<Rightarrow> bool" where
  "hasHolidayAnchor leaveDates' holidays =
     (let validHolidays = filter (\<lambda>h. \<not> isWeekend h) holidays
      in list_ex (\<lambda>ld. list_ex (\<lambda>h. \<bar>differenceInDays ld h\<bar> \<le> 3) validHolidays) leaveDates')"

section \<open>Vacation expansion\<close>

definition isOffDay :: "DayKey fset \<Rightarrow> Date list \<Rightarrow> Date \<Rightarrow> bool" where
  "isOffDay leaveSet holidays d =
     (isWeekend d \<or> isHoliday d holidays \<or> format_ymd d |\<in>| leaveSet)"

text \<open>
  The measure of the two expansion loops: the holidays and leave days still ahead of the walk,
  then the weekend days directly ahead of it.
\<close>

definition weekendAhead :: "int \<Rightarrow> nat" where
  "weekendAhead g = (if g = 0 then 1 else if g = 1 then 2 else 0)"

definition weekendBehind :: "int \<Rightarrow> nat" where
  "weekendBehind g = (if g = 6 then 1 else if g = 5 then 2 else 0)"

definition offKeys :: "DayKey fset \<Rightarrow> Date list \<Rightarrow> DayKey set" where
  "offKeys leaveSet holidays = fset leaveSet \<union> dayNumber ` set holidays"

lemma finite_offKeys: "finite (offKeys leaveSet holidays)"
  by (simp add: offKeys_def)

lemma isHoliday_iff: "isHoliday d holidays \<longleftrightarrow> dayNumber d \<in> dayNumber ` set holidays"
  unfolding isHoliday_def list_ex_iff isSameDay_iff by (metis image_iff)

lemma isOffDay_cases:
  "isOffDay leaveSet holidays d \<longleftrightarrow> isWeekend d \<or> dayNumber d \<in> offKeys leaveSet holidays"
  by (auto simp: isOffDay_def offKeys_def isHoliday_iff format_ymd_def)

function expandStart :: "DayKey fset \<Rightarrow> Date list \<Rightarrow> Date \<Rightarrow> Date" where
  "expandStart leaveSet holidays start =
     (if isOffDay leaveSet holidays (addDays start (-1))
      then expandStart leaveSet holidays (addDays start (-1))
      else start)"
  by pat_completeness auto

lemma expandStart_terminates: "All expandStart_dom"
proof (relation "measures
    [\<lambda>(leaveSet, holidays, start). card {k \<in> offKeys leaveSet holidays. k < dayNumber start},
     \<lambda>(leaveSet, holidays, start). weekendAhead (getDay start)]")
  show "wf (measures
    [\<lambda>(leaveSet, holidays, start). card {k \<in> offKeys leaveSet holidays. k < dayNumber start},
     \<lambda>(leaveSet, holidays, start). weekendAhead (getDay start)])"
    by simp
next
  fix leaveSet :: "DayKey fset" and holidays :: "Date list" and start :: Date
  let ?K = "offKeys leaveSet holidays"
  let ?A = "{k \<in> ?K. k < dayNumber start - 1}"
  let ?B = "{k \<in> ?K. k < dayNumber start}"
  assume off: "isOffDay leaveSet holidays (addDays start (-1))"
  have sub: "?A \<subseteq> ?B" by auto
  have fin: "finite ?B" using finite_offKeys by simp
  have "card ?A < card ?B \<or> (card ?A = card ?B \<and>
      weekendAhead (getDay (addDays start (-1))) < weekendAhead (getDay start))"
  proof (cases "dayNumber start - 1 \<in> ?K")
    case True
    then have "dayNumber start - 1 \<in> ?B" and "dayNumber start - 1 \<notin> ?A" by auto
    with sub have "?A \<subset> ?B" by blast
    then show ?thesis using fin by (simp add: psubset_card_mono)
  next
    case False
    then have eq: "?A = ?B" by (auto simp: order_less_le)
    from False off have "isWeekend (addDays start (-1))"
      by (simp add: isOffDay_cases dayNumber_addDays)
    then have "weekendAhead (getDay (addDays start (-1))) < weekendAhead (getDay start)"
      unfolding isWeekend_def getDay_def dayNumber_addDays weekendAhead_def by presburger
    with eq show ?thesis by simp
  qed
  then show "((leaveSet, holidays, addDays start (-1)), (leaveSet, holidays, start)) \<in> measures
    [\<lambda>(leaveSet, holidays, start). card {k \<in> offKeys leaveSet holidays. k < dayNumber start},
     \<lambda>(leaveSet, holidays, start). weekendAhead (getDay start)]"
    by (simp add: dayNumber_addDays)
qed

termination expandStart
  by (rule expandStart_terminates)

function expandEnd :: "DayKey fset \<Rightarrow> Date list \<Rightarrow> Date \<Rightarrow> Date" where
  "expandEnd leaveSet holidays end' =
     (if isOffDay leaveSet holidays (addDays end' 1)
      then expandEnd leaveSet holidays (addDays end' 1)
      else end')"
  by pat_completeness auto

lemma expandEnd_terminates: "All expandEnd_dom"
proof (relation "measures
    [\<lambda>(leaveSet, holidays, end'). card {k \<in> offKeys leaveSet holidays. dayNumber end' < k},
     \<lambda>(leaveSet, holidays, end'). weekendBehind (getDay end')]")
  show "wf (measures
    [\<lambda>(leaveSet, holidays, end'). card {k \<in> offKeys leaveSet holidays. dayNumber end' < k},
     \<lambda>(leaveSet, holidays, end'). weekendBehind (getDay end')])"
    by simp
next
  fix leaveSet :: "DayKey fset" and holidays :: "Date list" and end' :: Date
  let ?K = "offKeys leaveSet holidays"
  let ?A = "{k \<in> ?K. dayNumber end' + 1 < k}"
  let ?B = "{k \<in> ?K. dayNumber end' < k}"
  assume off: "isOffDay leaveSet holidays (addDays end' 1)"
  have sub: "?A \<subseteq> ?B" by auto
  have fin: "finite ?B" using finite_offKeys by simp
  have "card ?A < card ?B \<or> (card ?A = card ?B \<and>
      weekendBehind (getDay (addDays end' 1)) < weekendBehind (getDay end'))"
  proof (cases "dayNumber end' + 1 \<in> ?K")
    case True
    then have "dayNumber end' + 1 \<in> ?B" and "dayNumber end' + 1 \<notin> ?A" by auto
    with sub have "?A \<subset> ?B" by blast
    then show ?thesis using fin by (simp add: psubset_card_mono)
  next
    case False
    then have eq: "?A = ?B" by (auto simp: order_less_le)
    from False off have "isWeekend (addDays end' 1)"
      by (simp add: isOffDay_cases dayNumber_addDays)
    then have "weekendBehind (getDay (addDays end' 1)) < weekendBehind (getDay end')"
      unfolding isWeekend_def getDay_def dayNumber_addDays weekendBehind_def by presburger
    with eq show ?thesis by simp
  qed
  then show "((leaveSet, holidays, addDays end' 1), (leaveSet, holidays, end')) \<in> measures
    [\<lambda>(leaveSet, holidays, end'). card {k \<in> offKeys leaveSet holidays. dayNumber end' < k},
     \<lambda>(leaveSet, holidays, end'). weekendBehind (getDay end')]"
    by (simp add: dayNumber_addDays)
qed

termination expandEnd
  by (rule expandEnd_terminates)

text \<open>
  \<^verbatim>\<open>[anchor, ...leaveDates].reduce((a, b) => (a < b ? a : b))\<close> folds from the left with
  the anchor as the first accumulator; \<^verbatim>\<open><\<close> on two dates compares their time values.
\<close>

definition extendToFullVacation :: "Date list \<Rightarrow> Date list \<Rightarrow> Date \<Rightarrow> Date \<times> Date" where
  "extendToFullVacation leaveDates' holidays anchor =
     (let leaveSet = fset_of_list (map format_ymd leaveDates');
          start = normalize
            (foldl (\<lambda>a b. if getTime a < getTime b then a else b) anchor leaveDates');
          end' = normalize
            (foldl (\<lambda>a b. if getTime a > getTime b then a else b) anchor leaveDates')
      in (expandStart leaveSet holidays start, expandEnd leaveSet holidays end'))"

section \<open>Opportunity builders\<close>

text \<open>\<^verbatim>\<open>null\<close> is \<^const>\<open>None\<close>; the default \<^verbatim>\<open>max = 3\<close> is written out.\<close>

definition buildOpportunity ::
  "Date list \<Rightarrow> Date list \<Rightarrow> Date \<Rightarrow> Date Opportunity option" where
  "buildOpportunity leaveDates' holidays anchorHoliday =
     (if length leaveDates' = 0
         \<or> exceedsMaxConsecutiveLeaves leaveDates' holidays 3
         \<or> \<not> hasHolidayAnchor leaveDates' holidays
      then None
      else
        let (startDate', endDate') = extendToFullVacation leaveDates' holidays anchorHoliday;
            totalDays' = int (length (getDateRange startDate' endDate'))
        in Some \<lparr>leaveDates = leaveDates',
                 startDate = startDate',
                 endDate = endDate',
                 totalDays = totalDays',
                 bonusDays = totalDays' - int (length leaveDates'),
                 efficiency = of_int totalDays' / of_int (int (length leaveDates'))\<rparr>)"

text \<open>
  The two walks of \<^verbatim>\<open>findOpportunitiesAroundHoliday\<close>: backwards with
  \<^verbatim>\<open>unshift\<close>, forwards with \<^verbatim>\<open>push\<close>, each while the day is a working day.
\<close>

function walkBefore :: "Date \<Rightarrow> Date list \<Rightarrow> Date list \<Rightarrow> Date list" where
  "walkBefore d holidays before =
     (if isWorkingDay d holidays
      then walkBefore (addDays d (-1)) holidays (normalize d # before)
      else before)"
  by pat_completeness auto

lemma walkBefore_terminates: "All walkBefore_dom"
proof (relation "measure (\<lambda>(d, holidays, before). nat (getDay d))")
  show "wf (measure (\<lambda>(d, holidays, before). nat (getDay d)))"
    by simp
next
  fix d :: Date and holidays before :: "Date list"
  assume "isWorkingDay d holidays"
  then have "\<not> isWeekend d" by (simp add: isWorkingDay_def)
  then have "nat (getDay (addDays d (-1))) < nat (getDay d)"
    using getDay_range [of d] by (simp add: isWeekend_def getDay_prev)
  then show "((addDays d (-1), holidays, normalize d # before), (d, holidays, before))
      \<in> measure (\<lambda>(d, holidays, before). nat (getDay d))"
    by simp
qed

termination walkBefore
  by (rule walkBefore_terminates)

function walkAfter :: "Date \<Rightarrow> Date list \<Rightarrow> Date list \<Rightarrow> Date list" where
  "walkAfter d holidays after =
     (if isWorkingDay d holidays
      then walkAfter (addDays d 1) holidays (after @ [normalize d])
      else after)"
  by pat_completeness auto

lemma walkAfter_terminates: "All walkAfter_dom"
proof (relation "measure (\<lambda>(d, holidays, after). nat (6 - getDay d))")
  show "wf (measure (\<lambda>(d, holidays, after). nat (6 - getDay d)))"
    by simp
next
  fix d :: Date and holidays after :: "Date list"
  assume "isWorkingDay d holidays"
  then have "\<not> isWeekend d" by (simp add: isWorkingDay_def)
  then have "nat (6 - getDay (addDays d 1)) < nat (6 - getDay d)"
    using getDay_range [of d] by (simp add: isWeekend_def getDay_next)
  then show "((addDays d 1, holidays, after @ [normalize d]), (d, holidays, after))
      \<in> measure (\<lambda>(d, holidays, after). nat (6 - getDay d))"
    by simp
qed

termination walkAfter
  by (rule walkAfter_terminates)

text \<open>\<^verbatim>\<open>results.push(opp)\<close> when \<open>opp\<close> is not \<^verbatim>\<open>null\<close>.\<close>

definition pushIfSome :: "'a list \<Rightarrow> 'a option \<Rightarrow> 'a list" where
  "pushIfSome results opp = (case opp of None \<Rightarrow> results | Some x \<Rightarrow> results @ [x])"

text \<open>\<^verbatim>\<open>xs.slice(-3)\<close> is the last three elements, \<^verbatim>\<open>xs.slice(0, 3)\<close> the first three.\<close>

definition findOpportunitiesAroundHoliday ::
  "Date \<Rightarrow> Date list \<Rightarrow> Date Opportunity list" where
  "findOpportunitiesAroundHoliday holiday holidays =
     (if isWeekend holiday then []
      else
        let before = walkBefore (addDays holiday (-1)) holidays [];
            after = walkAfter (addDays holiday 1) holidays [];
            beforeSlice = drop (length before - 3) before;
            afterSlice = take 3 after;
            results = pushIfSome [] (buildOpportunity beforeSlice holidays holiday);
            results = pushIfSome results (buildOpportunity afterSlice holidays holiday);
            combined = beforeSlice @ afterSlice;
            results = pushIfSome results (buildOpportunity combined holidays holiday)
        in results)"

section \<open>Main optimizer\<close>

definition emptyResult :: "int \<Rightarrow> 'd OptimizationResult" where
  "emptyResult totalLeaves =
     \<lparr>recommendations = [],
      optimizedLeaves = [],
      totalVacations = 0,
      longestBreak = 0,
      leavesRemaining = totalLeaves\<rparr>"

text \<open>The state of the selection loop: the three variables it updates.\<close>

record 'd Selection =
  used :: "DayKey fset"
  selected :: "'d Opportunity list"
  usedLeaves :: int

definition selectStep ::
  "int \<Rightarrow> Date Selection \<Rightarrow> Date Opportunity \<Rightarrow> Date Selection" where
  "selectStep totalLeaves st opp =
     (let keys = map format_ymd (leaveDates opp) in
      if list_ex (\<lambda>k. k |\<in>| used st) keys \<or> usedLeaves st + int (length keys) > totalLeaves
      then st
      else \<lparr>used = fold finsert keys (used st),
            selected = selected st @ [opp],
            usedLeaves = usedLeaves st + int (length keys)\<rparr>)"

text \<open>A non-negative number in a template literal: its decimal digits.\<close>

function decimal :: "nat \<Rightarrow> string" where
  "decimal n =
     (if n < 10 then [''0123456789'' ! n] else decimal (n div 10) @ [''0123456789'' ! (n mod 10)])"
  by pat_completeness auto
termination
  by (relation "measure id") auto

definition numberToString :: "int \<Rightarrow> string" where
  "numberToString n = (if n < 0 then CHR ''-'' # decimal (nat (- n)) else decimal (nat n))"

definition toRecommendation :: "'d Opportunity \<Rightarrow> 'd LeaveRecommendation" where
  "toRecommendation o' =
     \<lparr>leaveDates = leaveDates o',
      startDate = startDate o',
      endDate = endDate o',
      totalDays = totalDays o',
      leavesUsed = int (length (leaveDates o')),
      description = ''Take '' @ numberToString (int (length (leaveDates o')))
        @ '' leave day(s) to get '' @ numberToString (totalDays o')
        @ '' continuous days off''\<rparr>"

text \<open>
  The comparators \<^verbatim>\<open>b.totalDays - a.totalDays\<close> and
  \<^verbatim>\<open>b.efficiency - a.efficiency\<close> sort descending; the stable sort keeps the order of
  generation among equals, as a stable ascending sort by the negated key does. The efficiency
  is a quotient of two integers and is compared as a rational number. The counter
  \<open>usedLeaves\<close> and the lengths are small integers and their sums are exact; the budget
  \<open>totalLeaves\<close> is any integer, and the subtraction that gives \<open>leavesRemaining\<close> is
  rounded to a double.
\<close>

definition optimizeLeaves ::
  "Date list \<Rightarrow> int \<Rightarrow> bool \<Rightarrow> bool \<Rightarrow> Date OptimizationResult" where
  "optimizeLeaves holidays totalLeaves sandwichRule preferLonger =
     (if length holidays = 0 \<or> totalLeaves \<le> 0 then emptyResult totalLeaves
      else
        let normalizedHolidays = sort_key getTime (map normalize holidays);
            opportunities = concat
              (map (\<lambda>h. findOpportunitiesAroundHoliday h normalizedHolidays) normalizedHolidays);
            opportunities =
              (if preferLonger then sort_key (\<lambda>o'. - totalDays o') opportunities
               else sort_key (\<lambda>o'. - efficiency o') opportunities);
            st = foldl (selectStep totalLeaves)
              \<lparr>used = {||}, selected = [], usedLeaves = 0\<rparr> opportunities;
            recommendations' = map toRecommendation (selected st)
        in \<lparr>recommendations = recommendations',
            optimizedLeaves = concat (map leaveDates (selected st)),
            totalVacations = int (length recommendations'),
            longestBreak = fold max (map totalDays recommendations') 0,
            leavesRemaining = toDouble (totalLeaves - usedLeaves st)\<rparr>)"

section \<open>Notions used in the properties\<close>

text \<open>The counter of the loop is the number of leave dates of the selected opportunities.\<close>

definition leavesOf :: "Date Opportunity list \<Rightarrow> int" where
  "leavesOf os = sum_list (map (\<lambda>o'. int (length (leaveDates o'))) os)"

text \<open>The sorted candidates and the final state of the selection loop, named.\<close>

definition sortedOpportunities :: "Date list \<Rightarrow> bool \<Rightarrow> Date Opportunity list" where
  "sortedOpportunities holidays preferLonger =
     (let normalizedHolidays = sort_key getTime (map normalize holidays);
          opportunities = concat
            (map (\<lambda>h. findOpportunitiesAroundHoliday h normalizedHolidays) normalizedHolidays)
      in if preferLonger then sort_key (\<lambda>o'. - totalDays o') opportunities
         else sort_key (\<lambda>o'. - efficiency o') opportunities)"

definition finalSelection :: "Date list \<Rightarrow> int \<Rightarrow> bool \<Rightarrow> Date Selection" where
  "finalSelection holidays totalLeaves preferLonger =
     foldl (selectStep totalLeaves) \<lparr>used = {||}, selected = [], usedLeaves = 0\<rparr>
       (sortedOpportunities holidays preferLonger)"

text \<open>What a candidate seed holds: working days, normalized, one to three days from the holiday.\<close>

definition nearHoliday :: "Date \<Rightarrow> Date list \<Rightarrow> Date \<Rightarrow> bool" where
  "nearHoliday h holidays l \<longleftrightarrow>
     isWorkingDay l holidays \<and> normalize l = l
     \<and> dayNumber h - 3 \<le> dayNumber l \<and> dayNumber l \<le> dayNumber h + 3
     \<and> dayNumber l \<noteq> dayNumber h"

text \<open>
  A run of \<open>n\<close> consecutive calendar days from the day of \<open>d\<close>, each a working day of the
  calendar and each the day of one of the leave dates.
\<close>

definition workingLeaveRun :: "Date list \<Rightarrow> Date list \<Rightarrow> Date \<Rightarrow> nat \<Rightarrow> bool" where
  "workingLeaveRun leaveDates' holidays d n =
     list_all (\<lambda>i. isWorkingDay (addDays d (int i)) holidays
                 \<and> list_ex (\<lambda>l. isSameDay l (addDays d (int i))) leaveDates') [0..<n]"

text \<open>The day keys of the leave dates of an opportunity or of a recommendation.\<close>

definition leaveKeys :: "(Date, 'a) Vacation_scheme \<Rightarrow> DayKey set" where
  "leaveKeys v = set (map format_ymd (leaveDates v))"

text \<open>
  The invariant of the selection loop: the set \<open>used\<close> holds exactly the keys of the
  selected opportunities, and no two selected opportunities share a key.
\<close>

definition selectionInv :: "Date Selection \<Rightarrow> bool" where
  "selectionInv st \<longleftrightarrow>
     fset (used st) = (\<Union>o'\<in>set (selected st). leaveKeys o')
     \<and> (\<forall>i j. i < j \<and> j < length (selected st) \<longrightarrow>
           leaveKeys (selected st ! i) \<inter> leaveKeys (selected st ! j) = {})"

text \<open>
  The off-days that the maximality property of the specification names: weekend days,
  holidays, and the leave dates of every recommendation of the result.
\<close>

definition selectedOffDay ::
  "Date list \<Rightarrow> Date OptimizationResult \<Rightarrow> Date \<Rightarrow> bool" where
  "selectedOffDay holidays result d =
     (isWeekend d \<or> isHoliday d holidays
      \<or> list_ex (\<lambda>r. list_ex (\<lambda>l. format_ymd l = format_ymd d) (leaveDates r))
           (recommendations result))"

text \<open>
  Maximality in that sense: next to the span of any recommendation there is no such off-day.
\<close>

definition spansMaximal :: "Date list \<Rightarrow> Date OptimizationResult \<Rightarrow> bool" where
  "spansMaximal holidays result =
     list_all (\<lambda>r. \<not> selectedOffDay holidays result (addDays (startDate r) (-1))
                 \<and> \<not> selectedOffDay holidays result (addDays (endDate r) 1))
       (recommendations result)"

text \<open>
  The holiday list with duplicate calendar days removed: of the dates on one calendar day, the
  first is kept.
\<close>

primrec dedupeHolidays :: "Date list \<Rightarrow> Date list" where
  "dedupeHolidays [] = []"
| "dedupeHolidays (h # hs) = h # filter (\<lambda>x. \<not> isSameDay x h) (dedupeHolidays hs)"

text \<open>The same for equal elements of any list: the first occurrence of each is kept.\<close>

primrec keepFirst :: "'a list \<Rightarrow> 'a list" where
  "keepFirst [] = []"
| "keepFirst (x # xs) = x # filter (\<lambda>y. y \<noteq> x) (keepFirst xs)"

text \<open>The test of the selection loop under which it skips an opportunity.\<close>

definition rejects :: "int \<Rightarrow> Date Selection \<Rightarrow> Date Opportunity \<Rightarrow> bool" where
  "rejects totalLeaves st opp \<longleftrightarrow>
     list_ex (\<lambda>k. k |\<in>| used st) (map format_ymd (leaveDates opp))
     \<or> usedLeaves st + int (length (leaveDates opp)) > totalLeaves"

section \<open>Facts about dates\<close>

lemma dayNumber_normalize: "dayNumber (normalize d) = dayNumber d"
  by (simp add: normalize_def dayNumber_startOfDay)

lemma getDay_normalize: "getDay (normalize d) = getDay d"
  by (simp add: getDay_def dayNumber_normalize)

lemma isWeekend_normalize: "isWeekend (normalize d) = isWeekend d"
  by (simp add: isWeekend_def getDay_normalize)

lemma isHoliday_normalize: "isHoliday (normalize d) holidays = isHoliday d holidays"
  by (simp add: isHoliday_iff dayNumber_normalize)

lemma isWorkingDay_normalize: "isWorkingDay (normalize d) holidays = isWorkingDay d holidays"
  by (simp add: isWorkingDay_def isWeekend_normalize isHoliday_normalize)

lemma dayNumber_image_normalized:
  "dayNumber ` set (sort_key getTime (map normalize holidays)) = dayNumber ` set holidays"
  by (simp add: image_image dayNumber_normalize)

lemma isHoliday_normalized:
  "isHoliday d (sort_key getTime (map normalize holidays)) = isHoliday d holidays"
  by (simp only: isHoliday_iff dayNumber_image_normalized)

lemma isWorkingDay_normalized:
  "isWorkingDay d (sort_key getTime (map normalize holidays)) = isWorkingDay d holidays"
  by (simp only: isWorkingDay_def isHoliday_normalized)

section \<open>The selection loop\<close>

lemma selectStep_cases:
  "selectStep totalLeaves st opp = st \<or>
   (selectStep totalLeaves st opp =
      \<lparr>used = fold finsert (map format_ymd (leaveDates opp)) (used st),
       selected = selected st @ [opp],
       usedLeaves = usedLeaves st + int (length (leaveDates opp))\<rparr>
    \<and> \<not> list_ex (\<lambda>k. k |\<in>| used st) (map format_ymd (leaveDates opp))
    \<and> usedLeaves st + int (length (leaveDates opp)) \<le> totalLeaves)"
  by (simp add: selectStep_def Let_def)

lemma fset_fold_finsert: "fset (fold finsert ks s) = set ks \<union> fset s"
  by (induction ks arbitrary: s) auto

lemma selectStep_usedLeaves:
  "usedLeaves st = leavesOf (selected st) \<Longrightarrow>
   usedLeaves (selectStep totalLeaves st opp) = leavesOf (selected (selectStep totalLeaves st opp))"
  using selectStep_cases [of totalLeaves st opp] by (auto simp: leavesOf_def)

lemma foldl_selectStep_usedLeaves:
  "usedLeaves st = leavesOf (selected st) \<Longrightarrow>
   usedLeaves (foldl (selectStep totalLeaves) st opps)
     = leavesOf (selected (foldl (selectStep totalLeaves) st opps))"
  by (induction opps arbitrary: st) (simp_all add: selectStep_usedLeaves)

lemma toRecommendation_fields:
  "leaveDates (toRecommendation o') = leaveDates o'"
  "startDate (toRecommendation o') = startDate o'"
  "endDate (toRecommendation o') = endDate o'"
  "totalDays (toRecommendation o') = totalDays o'"
  "leavesUsed (toRecommendation o') = int (length (leaveDates o'))"
  by (simp_all add: toRecommendation_def)

lemma optimizeLeaves_eq:
  "optimizeLeaves holidays totalLeaves sandwichRule preferLonger =
     (if length holidays = 0 \<or> totalLeaves \<le> 0 then emptyResult totalLeaves
      else
        \<lparr>recommendations =
           map toRecommendation (selected (finalSelection holidays totalLeaves preferLonger)),
         optimizedLeaves =
           concat (map leaveDates (selected (finalSelection holidays totalLeaves preferLonger))),
         totalVacations =
           int (length (selected (finalSelection holidays totalLeaves preferLonger))),
         longestBreak = fold max (map totalDays (map toRecommendation
           (selected (finalSelection holidays totalLeaves preferLonger)))) 0,
         leavesRemaining = toDouble
           (totalLeaves - usedLeaves (finalSelection holidays totalLeaves preferLonger))\<rparr>)"
  by (simp add: optimizeLeaves_def finalSelection_def sortedOpportunities_def Let_def)

lemma recommendations_optimizeLeaves:
  "recommendations (optimizeLeaves holidays totalLeaves sandwichRule preferLonger) =
     (if length holidays = 0 \<or> totalLeaves \<le> 0 then []
      else map toRecommendation (selected (finalSelection holidays totalLeaves preferLonger)))"
  by (simp add: optimizeLeaves_eq emptyResult_def)

lemma leavesRemaining_optimizeLeaves:
  "leavesRemaining (optimizeLeaves holidays totalLeaves sandwichRule preferLonger) =
     (if length holidays = 0 \<or> totalLeaves \<le> 0 then totalLeaves
      else toDouble
        (totalLeaves - usedLeaves (finalSelection holidays totalLeaves preferLonger)))"
  by (simp add: optimizeLeaves_eq emptyResult_def)

lemma usedLeaves_finalSelection:
  "usedLeaves (finalSelection holidays totalLeaves preferLonger)
     = leavesOf (selected (finalSelection holidays totalLeaves preferLonger))"
  unfolding finalSelection_def
  by (rule foldl_selectStep_usedLeaves) (simp add: leavesOf_def)

text \<open>
  C8: When the holiday list is empty or \<open>totalLeaves\<close> is not positive,
  \<^const>\<open>optimizeLeaves\<close> returns the empty result with \<open>leavesRemaining\<close> equal to the
  given \<open>totalLeaves\<close>, whatever its sign; \<^verbatim>\<open>optimizeLeaves([], 10, true, false)\<close> is
  the empty result with 10 leaves remaining.
\<close>

theorem C8_short_circuit:
  assumes "length holidays = 0 \<or> totalLeaves \<le> 0"
  shows "optimizeLeaves holidays totalLeaves sandwichRule preferLonger =
           \<lparr>recommendations = [], optimizedLeaves = [], totalVacations = 0,
            longestBreak = 0, leavesRemaining = totalLeaves\<rparr>
         \<and> optimizeLeaves [] 10 True False =
           \<lparr>recommendations = [], optimizedLeaves = [], totalVacations = 0,
            longestBreak = 0, leavesRemaining = 10\<rparr>"
  using assms by (simp add: optimizeLeaves_def emptyResult_def)

theorem C8_short_circuit_witness:
  "optimizeLeaves [Date 1735689600000] (- 2) False True =
     \<lparr>recommendations = [], optimizedLeaves = [], totalVacations = 0,
      longestBreak = 0, leavesRemaining = - 2\<rparr>"
proof -
  have h: "length [Date 1735689600000] = 0 \<or> (- 2 :: int) \<le> 0" by simp
  show ?thesis using C8_short_circuit [OF h, of False True] by simp
qed

text \<open>Integers up to \<open>2\<^sup>5\<^sup>3\<close> are doubles.\<close>

lemma bitLength_nonpos: "n \<le> 0 \<Longrightarrow> bitLength n = 0"
  by (subst bitLength.simps) simp

lemma bitLength_pos: "0 < n \<Longrightarrow> bitLength n = Suc (bitLength (n div 2))"
  by (subst bitLength.simps) simp

lemma bitLength_le: "n < 2 ^ k \<Longrightarrow> bitLength n \<le> k"
proof (induction k arbitrary: n)
  case 0
  then show ?case by (simp add: bitLength_nonpos)
next
  case (Suc k)
  show ?case
  proof (cases "n \<le> 0")
    case True
    then show ?thesis by (simp add: bitLength_nonpos)
  next
    case False
    from Suc.prems have "n div 2 < 2 ^ k" by simp
    from Suc.IH [OF this] False show ?thesis by (simp add: bitLength_pos)
  qed
qed

lemma toDouble_exact:
  assumes "0 \<le> x" and "x \<le> 9007199254740992"
  shows "toDouble x = x"
proof (cases "x = 9007199254740992")
  case True
  have "toDouble 9007199254740992 = 9007199254740992" by code_simp
  with True show ?thesis by simp
next
  case False
  with assms have "\<bar>x\<bar> < 2 ^ 53" by simp
  then have "bitLength \<bar>x\<bar> \<le> 53" by (rule bitLength_le)
  then have "doubleSpacing x = 1" by (simp add: doubleSpacing_def)
  then show ?thesis by (simp add: toDouble_def)
qed

text \<open>The counter of the selection loop stays between zero and the budget.\<close>

lemma selectStep_within_budget:
  "0 \<le> usedLeaves st \<and> usedLeaves st \<le> totalLeaves \<Longrightarrow>
   0 \<le> usedLeaves (selectStep totalLeaves st opp)
   \<and> usedLeaves (selectStep totalLeaves st opp) \<le> totalLeaves"
  using selectStep_cases [of totalLeaves st opp] by auto

lemma foldl_selectStep_within_budget:
  "0 \<le> usedLeaves st \<and> usedLeaves st \<le> totalLeaves \<Longrightarrow>
   0 \<le> usedLeaves (foldl (selectStep totalLeaves) st opps)
   \<and> usedLeaves (foldl (selectStep totalLeaves) st opps) \<le> totalLeaves"
proof (induction opps arbitrary: st)
  case Nil
  then show ?case by simp
next
  case (Cons opp opps)
  show ?case using Cons.IH [OF selectStep_within_budget [OF Cons.prems]] by simp
qed

lemma finalSelection_within_budget:
  assumes "0 \<le> totalLeaves"
  shows "0 \<le> usedLeaves (finalSelection holidays totalLeaves preferLonger)
       \<and> usedLeaves (finalSelection holidays totalLeaves preferLonger) \<le> totalLeaves"
  unfolding finalSelection_def
  by (rule foldl_selectStep_within_budget) (simp add: assms)

text \<open>
  C3, as stated, fails: the subtraction \<^verbatim>\<open>totalLeaves - usedLeaves\<close> is a subtraction
  of doubles. With the holidays Wednesday 2025-01-01 and Friday 2025-01-03 and the integer
  budget \<open>2\<^sup>5\<^sup>3 + 6\<close>, three leaves are used and \<open>leavesRemaining\<close> is \<open>2\<^sup>5\<^sup>3 + 4\<close>:
  the sum is not the budget, neither as an exact sum nor rounded to a double.
\<close>

theorem C3_budget_conservation_counterexample:
  "sum_list (map leavesUsed (recommendations
       (optimizeLeaves [Date 1735689600000, Date 1735862400000] 9007199254740998 False False)))
     = 3
   \<and> leavesRemaining
       (optimizeLeaves [Date 1735689600000, Date 1735862400000] 9007199254740998 False False)
     = 9007199254740996
   \<and> (3 :: int) + 9007199254740996 \<noteq> 9007199254740998
   \<and> toDouble (3 + 9007199254740996) \<noteq> 9007199254740998"
  by code_simp

text \<open>
  C3, amended: for every input whose \<open>totalLeaves\<close> is at most \<open>2\<^sup>5\<^sup>3 = 9007199254740992\<close>,
  the sum of \<open>leavesUsed\<close> over the recommendations plus \<open>leavesRemaining\<close> is the given
  \<open>totalLeaves\<close>, also for an empty holiday list and for a budget that is zero or negative.
\<close>

theorem C3_budget_conservation:
  assumes "totalLeaves \<le> 9007199254740992"
  shows "sum_list (map leavesUsed
           (recommendations (optimizeLeaves holidays totalLeaves sandwichRule preferLonger)))
     + leavesRemaining (optimizeLeaves holidays totalLeaves sandwichRule preferLonger)
   = totalLeaves"
proof (cases "length holidays = 0 \<or> totalLeaves \<le> 0")
  case True
  then show ?thesis
    by (simp add: recommendations_optimizeLeaves leavesRemaining_optimizeLeaves)
next
  case False
  let ?u = "usedLeaves (finalSelection holidays totalLeaves preferLonger)"
  from False have "0 \<le> totalLeaves" by simp
  from finalSelection_within_budget [OF this, of holidays preferLonger]
  have "0 \<le> totalLeaves - ?u" and "totalLeaves - ?u \<le> 9007199254740992"
    using assms by simp_all
  then have "toDouble (totalLeaves - ?u) = totalLeaves - ?u" by (rule toDouble_exact)
  then show ?thesis using False
    by (simp add: recommendations_optimizeLeaves leavesRemaining_optimizeLeaves
        usedLeaves_finalSelection leavesOf_def comp_def toRecommendation_fields)
qed

theorem C3_budget_conservation_witness:
  "(10 :: int) \<le> 9007199254740992
   \<and> sum_list (map leavesUsed (recommendations
       (optimizeLeaves [Date 1735689600000, Date 1735862400000] 10 False False)))
     + leavesRemaining (optimizeLeaves [Date 1735689600000, Date 1735862400000] 10 False False)
   = 10
   \<and> leavesRemaining (optimizeLeaves [Date 1735689600000, Date 1735862400000] 10 False False) = 7"
proof -
  have h: "(10 :: int) \<le> 9007199254740992" by simp
  have "leavesRemaining (optimizeLeaves [Date 1735689600000, Date 1735862400000] 10 False False) = 7"
    by code_simp
  then show ?thesis
    using C3_budget_conservation [OF h, of "[Date 1735689600000, Date 1735862400000]" False False]
    by simp
qed

section \<open>The walks around a holiday\<close>

declare walkBefore.simps [simp del] walkAfter.simps [simp del]

lemma addDays_zero: "addDays d 0 = d"
  by (simp add: addDays_def)

lemma upt_Suc_shift: "[0..<Suc n] = 0 # map Suc [0..<n]"
  by (simp add: upt_conv_Cons map_Suc_upt del: upt_Suc)

lemma addDays_addDays: "addDays (addDays d a) b = addDays d (a + b)"
  by (simp add: addDays_def algebra_simps)

lemma walkBefore_shape:
  "\<exists>n. walkBefore d holidays before =
         rev (map (\<lambda>i. normalize (addDays d (- int i))) [0..<n]) @ before
       \<and> (\<forall>i<n. isWorkingDay (addDays d (- int i)) holidays)
       \<and> \<not> isWorkingDay (addDays d (- int n)) holidays"
proof (induction d holidays before rule: walkBefore.induct)
  case (1 d holidays before)
  show ?case
  proof (cases "isWorkingDay d holidays")
    case False
    have "walkBefore d holidays before = before"
      using False by (simp add: walkBefore.simps [of d])
    then show ?thesis using False
      by (intro exI [of _ 0]) (simp add: addDays_zero)
  next
    case True
    from "1.IH" [OF True] obtain n where
      shape: "walkBefore (addDays d (-1)) holidays (normalize d # before) =
         rev (map (\<lambda>i. normalize (addDays (addDays d (-1)) (- int i))) [0..<n])
           @ normalize d # before"
      and work: "\<forall>i<n. isWorkingDay (addDays (addDays d (-1)) (- int i)) holidays"
      and stop: "\<not> isWorkingDay (addDays (addDays d (-1)) (- int n)) holidays"
      by blast
    have shift: "addDays (addDays d (-1)) (- int i) = addDays d (- int (Suc i))" for i
      by (simp add: addDays_addDays)
    have d0: "addDays d (- int 0) = d" by (simp add: addDays_zero)
    have "walkBefore d holidays before =
        walkBefore (addDays d (-1)) holidays (normalize d # before)"
      using True by (simp add: walkBefore.simps [of d])
    then have "walkBefore d holidays before =
        rev (map (\<lambda>i. normalize (addDays d (- int i))) [0..<Suc n]) @ before"
      using shape unfolding shift upt_Suc_shift
      by (simp add: comp_def addDays_zero del: upt_Suc)
    moreover have "\<forall>i<Suc n. isWorkingDay (addDays d (- int i)) holidays"
    proof (intro allI impI)
      fix i assume "i < Suc n"
      show "isWorkingDay (addDays d (- int i)) holidays"
      proof (cases i)
        case 0
        then show ?thesis using True d0 by simp
      next
        case (Suc j)
        then have "j < n" using \<open>i < Suc n\<close> by simp
        then show ?thesis using work shift Suc by metis
      qed
    qed
    moreover have "\<not> isWorkingDay (addDays d (- int (Suc n))) holidays"
      using stop shift by metis
    ultimately show ?thesis by blast
  qed
qed

lemma walkAfter_shape:
  "\<exists>n. walkAfter d holidays after =
         after @ map (\<lambda>i. normalize (addDays d (int i))) [0..<n]
       \<and> (\<forall>i<n. isWorkingDay (addDays d (int i)) holidays)
       \<and> \<not> isWorkingDay (addDays d (int n)) holidays"
proof (induction d holidays after rule: walkAfter.induct)
  case (1 d holidays after)
  show ?case
  proof (cases "isWorkingDay d holidays")
    case False
    have "walkAfter d holidays after = after"
      using False by (simp add: walkAfter.simps [of d])
    then show ?thesis using False
      by (intro exI [of _ 0]) (simp add: addDays_zero)
  next
    case True
    from "1.IH" [OF True] obtain n where
      shape: "walkAfter (addDays d 1) holidays (after @ [normalize d]) =
         (after @ [normalize d]) @ map (\<lambda>i. normalize (addDays (addDays d 1) (int i))) [0..<n]"
      and work: "\<forall>i<n. isWorkingDay (addDays (addDays d 1) (int i)) holidays"
      and stop: "\<not> isWorkingDay (addDays (addDays d 1) (int n)) holidays"
      by blast
    have shift: "addDays (addDays d 1) (int i) = addDays d (int (Suc i))" for i
      by (simp add: addDays_addDays)
    have d0: "addDays d (int 0) = d" by (simp add: addDays_zero)
    have "walkAfter d holidays after =
        walkAfter (addDays d 1) holidays (after @ [normalize d])"
      using True by (simp add: walkAfter.simps [of d])
    then have "walkAfter d holidays after =
        after @ map (\<lambda>i. normalize (addDays d (int i))) [0..<Suc n]"
      using shape unfolding shift upt_Suc_shift
      by (simp add: comp_def addDays_zero del: upt_Suc)
    moreover have "\<forall>i<Suc n. isWorkingDay (addDays d (int i)) holidays"
    proof (intro allI impI)
      fix i assume "i < Suc n"
      show "isWorkingDay (addDays d (int i)) holidays"
      proof (cases i)
        case 0
        then show ?thesis using True d0 by simp
      next
        case (Suc j)
        then have "j < n" using \<open>i < Suc n\<close> by simp
        then show ?thesis using work shift Suc by metis
      qed
    qed
    moreover have "\<not> isWorkingDay (addDays d (int (Suc n))) holidays"
      using stop shift by metis
    ultimately show ?thesis by blast
  qed
qed

lemma normalize_idem: "normalize (normalize d) = normalize d"
  by (simp add: normalize_def startOfDay_def dayNumber_startOfDay [unfolded startOfDay_def])

lemma set_take_upt0: "set (take k [0..<n]) = {i. i < k \<and> i < n}"
proof (cases "k \<le> n")
  case True
  then show ?thesis by (auto simp: take_upt)
next
  case False
  then show ?thesis by auto
qed

lemma beforeSlice_near:
  assumes "l \<in> set (drop (length (walkBefore (addDays h (-1)) holidays []) - 3)
                      (walkBefore (addDays h (-1)) holidays []))"
  shows "nearHoliday h holidays l"
proof -
  let ?g = "\<lambda>i. normalize (addDays (addDays h (-1)) (- int i))"
  obtain n where shape: "walkBefore (addDays h (-1)) holidays [] = rev (map ?g [0..<n])"
    and work: "\<forall>i<n. isWorkingDay (addDays (addDays h (-1)) (- int i)) holidays"
    using walkBefore_shape [of "addDays h (-1)" holidays "[]"] by auto
  from assms have "l \<in> set (take (n - (n - 3)) (map ?g [0..<n]))"
    unfolding shape by (simp add: drop_rev)
  then have "l \<in> ?g ` set (take (n - (n - 3)) [0..<n])"
    by (simp add: take_map)
  then obtain i where i: "i < n" "i < 3" and l: "l = ?g i"
    unfolding set_take_upt0 by auto
  have "isWorkingDay l holidays"
    using work i l by (simp add: isWorkingDay_normalize)
  moreover have "normalize l = l" using l by (simp add: normalize_idem)
  moreover have "dayNumber l = dayNumber h - 1 - int i"
    using l by (simp add: dayNumber_normalize dayNumber_addDays)
  ultimately show ?thesis using i by (simp add: nearHoliday_def)
qed

lemma afterSlice_near:
  assumes "l \<in> set (take 3 (walkAfter (addDays h 1) holidays []))"
  shows "nearHoliday h holidays l"
proof -
  let ?g = "\<lambda>i. normalize (addDays (addDays h 1) (int i))"
  obtain n where shape: "walkAfter (addDays h 1) holidays [] = map ?g [0..<n]"
    and work: "\<forall>i<n. isWorkingDay (addDays (addDays h 1) (int i)) holidays"
    using walkAfter_shape [of "addDays h 1" holidays "[]"] by auto
  from assms have "l \<in> ?g ` set (take 3 [0..<n])"
    unfolding shape by (simp add: take_map)
  then obtain i where i: "i < n" "i < 3" and l: "l = ?g i"
    unfolding set_take_upt0 by auto
  have "isWorkingDay l holidays"
    using work i l by (simp add: isWorkingDay_normalize)
  moreover have "normalize l = l" using l by (simp add: normalize_idem)
  moreover have "dayNumber l = dayNumber h + 1 + int i"
    using l by (simp add: dayNumber_normalize dayNumber_addDays)
  ultimately show ?thesis using i by (simp add: nearHoliday_def)
qed

lemma set_pushIfSome:
  "set (pushIfSome results opp) = set results \<union> (case opp of None \<Rightarrow> {} | Some x \<Rightarrow> {x})"
  by (simp add: pushIfSome_def split: option.splits)

lemma findOpportunities_member:
  assumes "o' \<in> set (findOpportunitiesAroundHoliday h holidays)"
  shows "\<not> isWeekend h \<and>
         (\<exists>ld. buildOpportunity ld holidays h = Some o' \<and> (\<forall>l\<in>set ld. nearHoliday h holidays l))"
proof -
  let ?b = "drop (length (walkBefore (addDays h (-1)) holidays []) - 3)
                 (walkBefore (addDays h (-1)) holidays [])"
  let ?a = "take 3 (walkAfter (addDays h 1) holidays [])"
  from assms have nw: "\<not> isWeekend h"
    by (auto simp: findOpportunitiesAroundHoliday_def split: if_splits)
  from assms nw have "buildOpportunity ?b holidays h = Some o'
      \<or> buildOpportunity ?a holidays h = Some o'
      \<or> buildOpportunity (?b @ ?a) holidays h = Some o'"
    by (auto simp: findOpportunitiesAroundHoliday_def Let_def set_pushIfSome
        split: option.splits)
  moreover have "\<forall>l\<in>set ?b. nearHoliday h holidays l" using beforeSlice_near by blast
  moreover have "\<forall>l\<in>set ?a. nearHoliday h holidays l" using afterSlice_near by blast
  moreover have "\<forall>l\<in>set (?b @ ?a). nearHoliday h holidays l"
    using beforeSlice_near afterSlice_near by auto
  ultimately show ?thesis using nw by blast
qed

section \<open>Where a recommendation comes from\<close>

lemma set_selected_selectStep:
  "set (selected (selectStep totalLeaves st opp)) \<subseteq> set (selected st) \<union> {opp}"
  using selectStep_cases [of totalLeaves st opp] by auto

lemma set_selected_foldl:
  "set (selected (foldl (selectStep totalLeaves) st opps)) \<subseteq> set (selected st) \<union> set opps"
proof (induction opps arbitrary: st)
  case Nil
  show ?case by simp
next
  case (Cons opp opps)
  show ?case using Cons.IH [of "selectStep totalLeaves st opp"]
      set_selected_selectStep [of totalLeaves st opp] by auto
qed

lemma set_sortedOpportunities:
  "set (sortedOpportunities holidays preferLonger) =
     (\<Union>h\<in>set (sort_key getTime (map normalize holidays)).
        set (findOpportunitiesAroundHoliday h (sort_key getTime (map normalize holidays))))"
  by (simp add: sortedOpportunities_def Let_def)

lemma selected_origin:
  assumes "o' \<in> set (selected (finalSelection holidays totalLeaves preferLonger))"
  shows "\<exists>h ld. h \<in> set (sort_key getTime (map normalize holidays)) \<and> \<not> isWeekend h
       \<and> buildOpportunity ld (sort_key getTime (map normalize holidays)) h = Some o'
       \<and> (\<forall>l\<in>set ld. nearHoliday h (sort_key getTime (map normalize holidays)) l)"
proof -
  have "o' \<in> set (sortedOpportunities holidays preferLonger)"
    using assms set_selected_foldl unfolding finalSelection_def by fastforce
  then obtain h where "h \<in> set (sort_key getTime (map normalize holidays))"
    and "o' \<in> set (findOpportunitiesAroundHoliday h (sort_key getTime (map normalize holidays)))"
    unfolding set_sortedOpportunities by blast
  then show ?thesis using findOpportunities_member by blast
qed

lemma recommendation_origin:
  assumes "r \<in> set (recommendations (optimizeLeaves holidays totalLeaves sandwichRule preferLonger))"
  shows "\<exists>o' h ld. r = toRecommendation o'
       \<and> h \<in> set (sort_key getTime (map normalize holidays)) \<and> \<not> isWeekend h
       \<and> buildOpportunity ld (sort_key getTime (map normalize holidays)) h = Some o'
       \<and> (\<forall>l\<in>set ld. nearHoliday h (sort_key getTime (map normalize holidays)) l)"
proof -
  from assms obtain o' where "r = toRecommendation o'"
    and "o' \<in> set (selected (finalSelection holidays totalLeaves preferLonger))"
    by (auto simp: recommendations_optimizeLeaves split: if_splits)
  then show ?thesis using selected_origin by blast
qed

section \<open>The span of an opportunity\<close>

declare expandStart.simps [simp del] expandEnd.simps [simp del] getDateRange_loop.simps [simp del]

lemma dayNumber_mono: "getTime a \<le> getTime b \<Longrightarrow> dayNumber a \<le> dayNumber b"
  using MS_PER_DAY_pos by (simp add: dayNumber_def zdiv_mono1)

lemma expandStart_stop:
  "\<not> isOffDay leaveSet holidays (addDays (expandStart leaveSet holidays start) (-1))"
proof (induction leaveSet holidays start rule: expandStart.induct)
  case (1 leaveSet holidays start)
  then show ?case by (simp add: expandStart.simps [of leaveSet holidays start])
qed

lemma expandEnd_stop:
  "\<not> isOffDay leaveSet holidays (addDays (expandEnd leaveSet holidays end') 1)"
proof (induction leaveSet holidays end' rule: expandEnd.induct)
  case (1 leaveSet holidays end')
  then show ?case by (simp add: expandEnd.simps [of leaveSet holidays end'])
qed

lemma expandStart_le: "dayNumber (expandStart leaveSet holidays start) \<le> dayNumber start"
proof (induction leaveSet holidays start rule: expandStart.induct)
  case (1 leaveSet holidays start)
  show ?case
  proof (cases "isOffDay leaveSet holidays (addDays start (-1))")
    case True
    then show ?thesis using "1.IH" [OF True]
      by (simp add: expandStart.simps [of leaveSet holidays start] dayNumber_addDays)
  next
    case False
    then show ?thesis by (simp add: expandStart.simps [of leaveSet holidays start])
  qed
qed

lemma expandEnd_ge: "dayNumber end' \<le> dayNumber (expandEnd leaveSet holidays end')"
proof (induction leaveSet holidays end' rule: expandEnd.induct)
  case (1 leaveSet holidays end')
  show ?case
  proof (cases "isOffDay leaveSet holidays (addDays end' 1)")
    case True
    then show ?thesis using "1.IH" [OF True]
      by (simp add: expandEnd.simps [of leaveSet holidays end'] dayNumber_addDays)
  next
    case False
    then show ?thesis by (simp add: expandEnd.simps [of leaveSet holidays end'])
  qed
qed

lemma foldl_earliest:
  "getTime (foldl (\<lambda>a b. if getTime a < getTime b then a else b) anchor ds) \<le> getTime anchor
   \<and> (\<forall>d\<in>set ds. getTime (foldl (\<lambda>a b. if getTime a < getTime b then a else b) anchor ds)
          \<le> getTime d)"
proof (induction ds arbitrary: anchor)
  case Nil
  show ?case by simp
next
  case (Cons d ds)
  show ?case using Cons.IH [of "if getTime anchor < getTime d then anchor else d"]
    by (auto split: if_splits)
qed

lemma foldl_latest:
  "getTime anchor \<le> getTime (foldl (\<lambda>a b. if getTime a > getTime b then a else b) anchor ds)
   \<and> (\<forall>d\<in>set ds. getTime d
          \<le> getTime (foldl (\<lambda>a b. if getTime a > getTime b then a else b) anchor ds))"
proof (induction ds arbitrary: anchor)
  case Nil
  show ?case by simp
next
  case (Cons d ds)
  show ?case using Cons.IH [of "if getTime anchor > getTime d then anchor else d"]
    by (auto split: if_splits)
qed

lemma extendToFullVacation_contains:
  assumes "extendToFullVacation ld holidays anchor = (s, e)"
  shows "dayNumber s \<le> dayNumber anchor \<and> dayNumber anchor \<le> dayNumber e
       \<and> (\<forall>l\<in>set ld. dayNumber s \<le> dayNumber l \<and> dayNumber l \<le> dayNumber e)"
proof -
  let ?lo = "foldl (\<lambda>a b. if getTime a < getTime b then a else b) anchor ld"
  let ?hi = "foldl (\<lambda>a b. if getTime a > getTime b then a else b) anchor ld"
  let ?ls = "fset_of_list (map format_ymd ld)"
  from assms have s: "s = expandStart ?ls holidays (normalize ?lo)"
    and e: "e = expandEnd ?ls holidays (normalize ?hi)"
    by (simp_all add: extendToFullVacation_def Let_def)
  have "dayNumber s \<le> dayNumber ?lo"
    using expandStart_le [of ?ls holidays "normalize ?lo"] s by (simp add: dayNumber_normalize)
  moreover have "dayNumber ?hi \<le> dayNumber e"
    using expandEnd_ge [of "normalize ?hi" ?ls holidays] e by (simp add: dayNumber_normalize)
  moreover have "dayNumber ?lo \<le> dayNumber anchor" "\<forall>l\<in>set ld. dayNumber ?lo \<le> dayNumber l"
    using foldl_earliest [of anchor ld] by (simp_all add: dayNumber_mono)
  moreover have "dayNumber anchor \<le> dayNumber ?hi" "\<forall>l\<in>set ld. dayNumber l \<le> dayNumber ?hi"
    using foldl_latest [of anchor ld] by (simp_all add: dayNumber_mono)
  ultimately show ?thesis by force
qed

lemma extendToFullVacation_maximal:
  assumes "extendToFullVacation ld holidays anchor = (s, e)"
  shows "\<not> isOffDay (fset_of_list (map format_ymd ld)) holidays (addDays s (-1))
       \<and> \<not> isOffDay (fset_of_list (map format_ymd ld)) holidays (addDays e 1)"
  using assms expandStart_stop expandEnd_stop
  by (auto simp: extendToFullVacation_def Let_def)

text \<open>The number of dates that \<^const>\<open>getDateRange\<close> returns.\<close>

lemma getDateRange_loop_length:
  assumes "getTime cur = dayNumber cur * MS_PER_DAY" and "getTime lst = dayNumber lst * MS_PER_DAY"
  shows "length (getDateRange_loop cur lst res)
       = length res + nat (dayNumber lst - dayNumber cur + 1)"
  using assms
proof (induction cur lst res rule: getDateRange_loop.induct)
  case (1 cur lst res)
  have before_iff: "isBefore cur (addDays lst 1) \<longleftrightarrow> dayNumber cur < dayNumber lst + 1"
  proof -
    have "isBefore cur (addDays lst 1)
        \<longleftrightarrow> dayNumber cur * MS_PER_DAY < (dayNumber lst + 1) * MS_PER_DAY"
      using "1.prems" by (simp add: isBefore_def getTime_addDays algebra_simps)
    then show ?thesis using MS_PER_DAY_pos by (simp only: mult_less_cancel_right) simp
  qed
  show ?case
  proof (cases "isBefore cur (addDays lst 1)")
    case True
    have nxt: "getTime (addDays cur 1) = dayNumber (addDays cur 1) * MS_PER_DAY"
      using "1.prems"(1) by (simp add: getTime_addDays dayNumber_addDays algebra_simps)
    have "length (getDateRange_loop (addDays cur 1) lst (res @ [cur]))
        = length (res @ [cur]) + nat (dayNumber lst - dayNumber (addDays cur 1) + 1)"
      using "1.IH" [OF True nxt "1.prems"(2)] .
    then show ?thesis using True before_iff
      by (simp add: getDateRange_loop.simps [of cur lst res] dayNumber_addDays)
  next
    case False
    then show ?thesis using before_iff
      by (simp add: getDateRange_loop.simps [of cur lst res])
  qed
qed

lemma getDateRange_length:
  "length (getDateRange start end') = nat (dayNumber end' - dayNumber start + 1)"
proof -
  have "length (getDateRange_loop (normalize start) (normalize end') [])
      = length ([] :: Date list) + nat (dayNumber (normalize end') - dayNumber (normalize start) + 1)"
    by (rule getDateRange_loop_length)
       (simp_all add: normalize_def getTime_startOfDay dayNumber_startOfDay)
  then show ?thesis by (simp add: getDateRange_def dayNumber_normalize)
qed

lemma buildOpportunity_Some:
  assumes "buildOpportunity ld holidays anchor = Some o'"
  shows "leaveDates o' = ld" and "ld \<noteq> []"
    and "extendToFullVacation ld holidays anchor = (startDate o', endDate o')"
    and "totalDays o' = int (length (getDateRange (startDate o') (endDate o')))"
    and "bonusDays o' = totalDays o' - int (length ld)"
    and "efficiency o' = of_int (totalDays o') / of_int (int (length ld))"
    and "\<not> exceedsMaxConsecutiveLeaves ld holidays 3"
    and "hasHolidayAnchor ld holidays"
  using assms
  by (auto simp: buildOpportunity_def Let_def split: if_splits prod.splits)

section \<open>Properties of the result\<close>

lemma nearHoliday_normalized:
  "nearHoliday h (sort_key getTime (map normalize holidays)) l = nearHoliday h holidays l"
  by (simp add: nearHoliday_def isWorkingDay_normalized)

lemma isOffDay_normalized:
  "isOffDay leaveSet (sort_key getTime (map normalize holidays)) d = isOffDay leaveSet holidays d"
  by (simp add: isOffDay_def isHoliday_normalized)

text \<open>
  Everything the properties below need to know about one recommendation: the opportunity it
  projects, the holiday that opportunity was built around, and the seed it was built from.
\<close>

lemma recommendation_facts:
  assumes "r \<in> set (recommendations (optimizeLeaves holidays totalLeaves sandwichRule preferLonger))"
  obtains o' h where "r = toRecommendation o'"
    and "isHoliday h holidays" and "\<not> isWeekend h"
    and "buildOpportunity (leaveDates r) (sort_key getTime (map normalize holidays)) h = Some o'"
    and "\<forall>l\<in>set (leaveDates r). nearHoliday h holidays l"
proof -
  let ?N = "sort_key getTime (map normalize holidays)"
  from recommendation_origin [OF assms] obtain o' h ld where r: "r = toRecommendation o'"
    and h: "h \<in> set ?N" and nw: "\<not> isWeekend h"
    and b: "buildOpportunity ld ?N h = Some o'"
    and near: "\<forall>l\<in>set ld. nearHoliday h ?N l"
    by blast
  have ld: "leaveDates r = ld"
    using r buildOpportunity_Some(1) [OF b] by (simp add: toRecommendation_fields)
  have "isHoliday h ?N" using h by (auto simp: isHoliday_iff)
  then have "isHoliday h holidays" by (simp only: isHoliday_normalized)
  then show thesis using that r nw b near ld by (simp add: nearHoliday_normalized)
qed

text \<open>
  C7: Every opportunity that \<^const>\<open>buildOpportunity\<close> returns has a start that is not after
  its end, a \<open>totalDays\<close> that is the number of calendar days from \<open>startDate\<close> to \<open>endDate\<close>
  inclusive, \<open>bonusDays = totalDays - |leaveDates|\<close>, \<open>efficiency = totalDays / |leaveDates|\<close>
  and at least one leave date; every recommendation of \<^const>\<open>optimizeLeaves\<close> has that
  \<open>totalDays\<close> and at least one leave date too.
\<close>

theorem C7_opportunity_metrics:
  "(\<forall>o'. buildOpportunity ld hs anchor = Some o' \<longrightarrow>
       dayNumber (startDate o') \<le> dayNumber (endDate o')
     \<and> totalDays o' = dayNumber (endDate o') - dayNumber (startDate o') + 1
     \<and> totalDays o' = int (length (getDateRange (startDate o') (endDate o')))
     \<and> bonusDays o' = totalDays o' - int (length (leaveDates o'))
     \<and> efficiency o' = of_int (totalDays o') / of_int (int (length (leaveDates o')))
     \<and> 0 < length (leaveDates o'))
   \<and> (\<forall>r\<in>set (recommendations (optimizeLeaves holidays totalLeaves sandwichRule preferLonger)).
       totalDays r = dayNumber (endDate r) - dayNumber (startDate r) + 1
     \<and> leavesUsed r = int (length (leaveDates r))
     \<and> 0 < length (leaveDates r))"
proof -
  have opp: "dayNumber (startDate o') \<le> dayNumber (endDate o')
     \<and> totalDays o' = dayNumber (endDate o') - dayNumber (startDate o') + 1
     \<and> totalDays o' = int (length (getDateRange (startDate o') (endDate o')))
     \<and> bonusDays o' = totalDays o' - int (length (leaveDates o'))
     \<and> efficiency o' = of_int (totalDays o') / of_int (int (length (leaveDates o')))
     \<and> 0 < length (leaveDates o')"
    if b: "buildOpportunity ld' hs' a = Some o'" for ld' hs' a o'
  proof -
    note f = buildOpportunity_Some [OF b]
    have le: "dayNumber (startDate o') \<le> dayNumber (endDate o')"
      using extendToFullVacation_contains [OF f(3)] by linarith
    have "totalDays o' = dayNumber (endDate o') - dayNumber (startDate o') + 1"
      using f(4) le by (simp add: getDateRange_length)
    then show ?thesis using le f by simp
  qed
  have "totalDays r = dayNumber (endDate r) - dayNumber (startDate r) + 1
     \<and> leavesUsed r = int (length (leaveDates r)) \<and> 0 < length (leaveDates r)"
    if "r \<in> set (recommendations (optimizeLeaves holidays totalLeaves sandwichRule preferLonger))"
    for r
  proof -
    from that obtain o' h where "r = toRecommendation o'"
      and "buildOpportunity (leaveDates r) (sort_key getTime (map normalize holidays)) h = Some o'"
      by (rule recommendation_facts)
    then show ?thesis using opp by (simp add: toRecommendation_fields)
  qed
  with opp show ?thesis by blast
qed

theorem C7_opportunity_metrics_witness:
  "buildOpportunity [Date 1735516800000, Date 1735603200000] [Date 1735689600000]
       (Date 1735689600000)
     = Some \<lparr>leaveDates = [Date 1735516800000, Date 1735603200000],
             startDate = Date 1735344000000, endDate = Date 1735689600000,
             totalDays = 5, bonusDays = 3, efficiency = 5 / 2\<rparr>
   \<and> (5 :: int) = dayNumber (Date 1735689600000) - dayNumber (Date 1735344000000) + 1"
proof -
  have b: "buildOpportunity [Date 1735516800000, Date 1735603200000] [Date 1735689600000]
       (Date 1735689600000)
     = Some \<lparr>leaveDates = [Date 1735516800000, Date 1735603200000],
             startDate = Date 1735344000000, endDate = Date 1735689600000,
             totalDays = 5, bonusDays = 3, efficiency = 5 / 2\<rparr>"
    by code_simp
  from C7_opportunity_metrics [of "[Date 1735516800000, Date 1735603200000]"
      "[Date 1735689600000]" "Date 1735689600000" "[]" 0 False False] b
  show ?thesis by simp
qed

text \<open>
  C9: In every recommendation of \<^const>\<open>optimizeLeaves\<close>, every leave date lies between
  \<open>startDate\<close> and \<open>endDate\<close> inclusive, compared by calendar day.
\<close>

theorem C9_span_containment:
  assumes "r \<in> set (recommendations (optimizeLeaves holidays totalLeaves sandwichRule preferLonger))"
    and "l \<in> set (leaveDates r)"
  shows "dayNumber (startDate r) \<le> dayNumber l \<and> dayNumber l \<le> dayNumber (endDate r)"
proof -
  from assms(1) obtain o' h where r: "r = toRecommendation o'"
    and b: "buildOpportunity (leaveDates r) (sort_key getTime (map normalize holidays)) h = Some o'"
    by (rule recommendation_facts)
  have "extendToFullVacation (leaveDates r) (sort_key getTime (map normalize holidays)) h
      = (startDate r, endDate r)"
    using buildOpportunity_Some(3) [OF b] r by (simp add: toRecommendation_fields)
  from extendToFullVacation_contains [OF this] assms(2) show ?thesis by blast
qed

text \<open>
  C10: In every recommendation of \<^const>\<open>optimizeLeaves\<close>, every leave date is a working
  day of the input calendar: not a Saturday, not a Sunday, and not on the day of an input
  holiday.
\<close>

theorem C10_leave_on_working_days:
  assumes "r \<in> set (recommendations (optimizeLeaves holidays totalLeaves sandwichRule preferLonger))"
    and "l \<in> set (leaveDates r)"
  shows "isWorkingDay l holidays \<and> getDay l \<noteq> 6 \<and> getDay l \<noteq> 0
       \<and> \<not> isHoliday l holidays
       \<and> \<not> isHoliday l (sort_key getTime (map normalize holidays))"
proof -
  from assms(1) obtain o' h where "\<forall>l\<in>set (leaveDates r). nearHoliday h holidays l"
    by (rule recommendation_facts)
  with assms(2) have "isWorkingDay l holidays" by (simp add: nearHoliday_def)
  then show ?thesis
    by (simp add: isWorkingDay_def isWeekend_def isHoliday_normalized)
qed

theorem C9_span_containment_witness:
  "\<lparr>leaveDates = [Date 1735516800000, Date 1735603200000],
     startDate = Date 1735344000000, endDate = Date 1735689600000,
     totalDays = 5, leavesUsed = 2,
     description = ''Take 2 leave day(s) to get 5 continuous days off''\<rparr>
     \<in> set (recommendations (optimizeLeaves [Date 1735689600000] 4 False False))
   \<and> dayNumber (Date 1735344000000) \<le> dayNumber (Date 1735603200000)
   \<and> dayNumber (Date 1735603200000) \<le> dayNumber (Date 1735689600000)"
proof -
  let ?r = "\<lparr>leaveDates = [Date 1735516800000, Date 1735603200000],
     startDate = Date 1735344000000, endDate = Date 1735689600000,
     totalDays = 5, leavesUsed = 2,
     description = ''Take 2 leave day(s) to get 5 continuous days off''\<rparr>"
  have r: "?r \<in> set (recommendations (optimizeLeaves [Date 1735689600000] 4 False False))"
    by code_simp
  have l: "Date 1735603200000 \<in> set (leaveDates ?r)" by simp
  from C9_span_containment [OF r l] r show ?thesis by simp
qed

theorem C10_leave_on_working_days_witness:
  "\<lparr>leaveDates = [Date 1735776000000, Date 1735862400000],
     startDate = Date 1735689600000, endDate = Date 1736035200000,
     totalDays = 5, leavesUsed = 2,
     description = ''Take 2 leave day(s) to get 5 continuous days off''\<rparr>
     \<in> set (recommendations (optimizeLeaves [Date 1735689600000] 4 False False))
   \<and> isWorkingDay (Date 1735776000000) [Date 1735689600000]
   \<and> getDay (Date 1735776000000) = 4"
proof -
  let ?r = "\<lparr>leaveDates = [Date 1735776000000, Date 1735862400000],
     startDate = Date 1735689600000, endDate = Date 1736035200000,
     totalDays = 5, leavesUsed = 2,
     description = ''Take 2 leave day(s) to get 5 continuous days off''\<rparr>"
  have r: "?r \<in> set (recommendations (optimizeLeaves [Date 1735689600000] 4 False False))"
    by code_simp
  have l: "Date 1735776000000 \<in> set (leaveDates ?r)" by simp
  have g: "getDay (Date 1735776000000) = 4" by code_simp
  from C10_leave_on_working_days [OF r l] r g show ?thesis by simp
qed

text \<open>
  C5: No recommendation of \<^const>\<open>optimizeLeaves\<close> has, among its leave dates, four
  consecutive calendar days that are all working days of the input calendar (neither weekend
  days nor input holidays); so no run of more than 3.
\<close>

theorem C5_consecutive_leave_cap:
  assumes "r \<in> set (recommendations (optimizeLeaves holidays totalLeaves sandwichRule preferLonger))"
  shows "\<not> workingLeaveRun (leaveDates r) holidays d 4"
proof
  assume run: "workingLeaveRun (leaveDates r) holidays d 4"
  from assms obtain o' h where near: "\<forall>l\<in>set (leaveDates r). nearHoliday h holidays l"
    by (rule recommendation_facts)
  have ex: "\<exists>l\<in>set (leaveDates r). dayNumber l = dayNumber d + int i" if "i < 4" for i
  proof -
    from run that have "list_ex (\<lambda>l. isSameDay l (addDays d (int i))) (leaveDates r)"
      by (simp add: workingLeaveRun_def list_all_iff)
    then show ?thesis by (auto simp: list_ex_iff isSameDay_iff dayNumber_addDays)
  qed
  from ex [of 0] near have lo: "dayNumber h - 3 \<le> dayNumber d"
    by (auto simp: nearHoliday_def)
  from ex [of 3] near have hi: "dayNumber d + 3 \<le> dayNumber h + 3"
    by (auto simp: nearHoliday_def)
  from lo hi obtain i :: nat where i: "i < 4" and eq: "dayNumber d + int i = dayNumber h"
    by (intro that [of "nat (dayNumber h - dayNumber d)"]) auto
  from ex [OF i] obtain l where "l \<in> set (leaveDates r)" and "dayNumber l = dayNumber h"
    using eq by auto
  with near show False by (auto simp: nearHoliday_def)
qed

theorem C5_consecutive_leave_cap_witness:
  "recommendations (optimizeLeaves [Date 1735689600000] 4 False True) =
     [\<lparr>leaveDates = [Date 1735516800000, Date 1735603200000, Date 1735776000000,
         Date 1735862400000],
       startDate = Date 1735344000000, endDate = Date 1736035200000,
       totalDays = 9, leavesUsed = 4,
       description = ''Take 4 leave day(s) to get 9 continuous days off''\<rparr>]
   \<and> \<not> workingLeaveRun [Date 1735516800000, Date 1735603200000, Date 1735776000000,
         Date 1735862400000] [Date 1735689600000] (Date 1735516800000) 4
   \<and> workingLeaveRun [Date 1735516800000, Date 1735603200000, Date 1735776000000,
         Date 1735862400000] [Date 1735689600000] (Date 1735516800000) 2"
proof -
  let ?r = "\<lparr>leaveDates = [Date 1735516800000, Date 1735603200000, Date 1735776000000,
         Date 1735862400000],
       startDate = Date 1735344000000, endDate = Date 1736035200000,
       totalDays = 9, leavesUsed = 4,
       description = ''Take 4 leave day(s) to get 9 continuous days off''\<rparr>"
  have recs: "recommendations (optimizeLeaves [Date 1735689600000] 4 False True) = [?r]"
    by code_simp
  then have r: "?r \<in> set (recommendations (optimizeLeaves [Date 1735689600000] 4 False True))"
    by simp
  have two: "workingLeaveRun [Date 1735516800000, Date 1735603200000, Date 1735776000000,
         Date 1735862400000] [Date 1735689600000] (Date 1735516800000) 2"
    by code_simp
  from C5_consecutive_leave_cap [OF r, of "Date 1735516800000"] recs two show ?thesis by simp
qed

section \<open>Disjoint leave dates\<close>

lemma selectionInv_step:
  assumes "selectionInv st"
  shows "selectionInv (selectStep totalLeaves st opp)"
proof -
  from selectStep_cases [of totalLeaves st opp] show ?thesis
  proof
    assume "selectStep totalLeaves st opp = st"
    with assms show ?thesis by simp
  next
    assume a: "selectStep totalLeaves st opp =
        \<lparr>used = fold finsert (map format_ymd (leaveDates opp)) (used st),
         selected = selected st @ [opp],
         usedLeaves = usedLeaves st + int (length (leaveDates opp))\<rparr>
      \<and> \<not> list_ex (\<lambda>k. k |\<in>| used st) (map format_ymd (leaveDates opp))
      \<and> usedLeaves st + int (length (leaveDates opp)) \<le> totalLeaves"
    then have fresh: "leaveKeys opp \<inter> fset (used st) = {}"
      by (auto simp: leaveKeys_def list_ex_iff)
    from assms have u: "fset (used st) = (\<Union>o'\<in>set (selected st). leaveKeys o')"
      and d: "\<And>i j. i < j \<Longrightarrow> j < length (selected st) \<Longrightarrow>
            leaveKeys (selected st ! i) \<inter> leaveKeys (selected st ! j) = {}"
      by (simp_all add: selectionInv_def)
    have u': "fset (fold finsert (map format_ymd (leaveDates opp)) (used st))
        = (\<Union>o'\<in>set (selected st @ [opp]). leaveKeys o')"
      using u by (auto simp: fset_fold_finsert leaveKeys_def)
    have d': "leaveKeys ((selected st @ [opp]) ! i) \<inter> leaveKeys ((selected st @ [opp]) ! j) = {}"
      if "i < j" and "j < length (selected st @ [opp])" for i j
    proof (cases "j < length (selected st)")
      case True
      then show ?thesis using d [OF that(1) True] that(1) by (simp add: nth_append)
    next
      case False
      then have j: "j = length (selected st)" using that(2) by simp
      then have "selected st ! i \<in> set (selected st)" using that(1) by simp
      then have "leaveKeys (selected st ! i) \<subseteq> fset (used st)" using u by blast
      then show ?thesis using fresh j that(1) by (auto simp: nth_append)
    qed
    from a u' d' show ?thesis by (simp add: selectionInv_def)
  qed
qed

lemma selectionInv_foldl:
  "selectionInv st \<Longrightarrow> selectionInv (foldl (selectStep totalLeaves) st opps)"
  by (induction opps arbitrary: st) (simp_all add: selectionInv_step)

lemma selectionInv_final: "selectionInv (finalSelection holidays totalLeaves preferLonger)"
  unfolding finalSelection_def
  by (rule selectionInv_foldl) (simp add: selectionInv_def)

lemma leaveKeys_toRecommendation: "leaveKeys (toRecommendation o') = leaveKeys o'"
  by (simp add: leaveKeys_def toRecommendation_fields)

text \<open>
  C4: No calendar day, by its key, is a leave date of two recommendations of
  \<^const>\<open>optimizeLeaves\<close>: the key sets of any two of them are disjoint. The loop keeps this
  at every step (\<open>selectionInv_step\<close>).
\<close>

theorem C4_no_double_booking:
  assumes "i < j"
    and "j < length (recommendations (optimizeLeaves holidays totalLeaves sandwichRule preferLonger))"
  shows "leaveKeys (recommendations (optimizeLeaves holidays totalLeaves sandwichRule preferLonger) ! i)
       \<inter> leaveKeys (recommendations (optimizeLeaves holidays totalLeaves sandwichRule preferLonger) ! j)
       = {}"
proof -
  let ?sel = "selected (finalSelection holidays totalLeaves preferLonger)"
  from assms(2) have nd: "\<not> (length holidays = 0 \<or> totalLeaves \<le> 0)"
    by (auto simp: recommendations_optimizeLeaves split: if_splits)
  then have recs: "recommendations (optimizeLeaves holidays totalLeaves sandwichRule preferLonger)
      = map toRecommendation ?sel"
    by (simp add: recommendations_optimizeLeaves)
  from assms(2) have j: "j < length ?sel" by (simp add: recs)
  have "leaveKeys (?sel ! i) \<inter> leaveKeys (?sel ! j) = {}"
    using selectionInv_final [of holidays totalLeaves preferLonger] assms(1) j
    by (simp add: selectionInv_def)
  then show ?thesis using assms(1) j by (simp add: recs leaveKeys_toRecommendation)
qed

theorem C4_no_double_booking_witness:
  "(0 :: nat) < 1
   \<and> 1 < length (recommendations (optimizeLeaves [Date 1735689600000] 4 False False))
   \<and> leaveKeys (recommendations (optimizeLeaves [Date 1735689600000] 4 False False) ! 0)
       \<inter> leaveKeys (recommendations (optimizeLeaves [Date 1735689600000] 4 False False) ! 1)
       = {}
   \<and> leaveKeys (recommendations (optimizeLeaves [Date 1735689600000] 4 False False) ! 0)
       = {20087, 20088}"
proof -
  have h1: "(0 :: nat) < 1" by simp
  have h2: "1 < length (recommendations (optimizeLeaves [Date 1735689600000] 4 False False))"
    by code_simp
  have k: "leaveKeys (recommendations (optimizeLeaves [Date 1735689600000] 4 False False) ! 0)
       = {20087, 20088}"
    by code_simp
  from C4_no_double_booking [OF h1 h2] h2 k show ?thesis by simp
qed

section \<open>Maximal spans\<close>

text \<open>
  C1, as stated, fails: with the single holiday Wednesday 2025-01-01 and four leaves, the first
  recommendation ends on the holiday, and the next day, Thursday, is a leave date of the second
  recommendation.
\<close>

theorem C1_maximality_counterexample:
  "\<not> spansMaximal [Date 1735689600000] (optimizeLeaves [Date 1735689600000] 4 False False)"
  by code_simp

text \<open>
  C1, amended: for every recommendation of \<^const>\<open>optimizeLeaves\<close>, the day before
  \<open>startDate\<close> and the day after \<open>endDate\<close> are not off-days in the sense of
  \<^const>\<open>isOffDay\<close>: neither a weekend day, nor the day of an input holiday, nor one of the
  recommendation's own leave dates.
\<close>

theorem C1_maximality_own_leaves:
  assumes "r \<in> set (recommendations (optimizeLeaves holidays totalLeaves sandwichRule preferLonger))"
  shows "\<not> isOffDay (fset_of_list (map format_ymd (leaveDates r))) holidays
             (addDays (startDate r) (-1))
       \<and> \<not> isOffDay (fset_of_list (map format_ymd (leaveDates r))) holidays
             (addDays (endDate r) 1)"
proof -
  from assms obtain o' h where r: "r = toRecommendation o'"
    and b: "buildOpportunity (leaveDates r) (sort_key getTime (map normalize holidays)) h = Some o'"
    by (rule recommendation_facts)
  have "extendToFullVacation (leaveDates r) (sort_key getTime (map normalize holidays)) h
      = (startDate r, endDate r)"
    using buildOpportunity_Some(3) [OF b] r by (simp add: toRecommendation_fields)
  from extendToFullVacation_maximal [OF this] show ?thesis
    by (simp add: isOffDay_normalized)
qed

theorem C1_maximality_own_leaves_witness:
  "\<lparr>leaveDates = [Date 1735516800000, Date 1735603200000],
     startDate = Date 1735344000000, endDate = Date 1735689600000,
     totalDays = 5, leavesUsed = 2,
     description = ''Take 2 leave day(s) to get 5 continuous days off''\<rparr>
     \<in> set (recommendations (optimizeLeaves [Date 1735689600000] 4 False False))
   \<and> \<not> isOffDay (fset_of_list (map format_ymd [Date 1735516800000, Date 1735603200000]))
         [Date 1735689600000] (addDays (Date 1735344000000) (-1))
   \<and> \<not> isOffDay (fset_of_list (map format_ymd [Date 1735516800000, Date 1735603200000]))
         [Date 1735689600000] (addDays (Date 1735689600000) 1)"
proof -
  let ?r = "\<lparr>leaveDates = [Date 1735516800000, Date 1735603200000],
     startDate = Date 1735344000000, endDate = Date 1735689600000,
     totalDays = 5, leavesUsed = 2,
     description = ''Take 2 leave day(s) to get 5 continuous days off''\<rparr>"
  have r: "?r \<in> set (recommendations (optimizeLeaves [Date 1735689600000] 4 False False))"
    by code_simp
  from C1_maximality_own_leaves [OF r] r show ?thesis by simp
qed

section \<open>Termination\<close>







section \<open>Duplicate holidays\<close>

lemma set_keepFirst: "set (keepFirst xs) = set xs"
  by (induction xs) auto

lemma distinct_keepFirst: "distinct (keepFirst xs)"
  by (induction xs) (auto simp: set_keepFirst)

lemma keepFirst_filter: "keepFirst (filter P xs) = filter P (keepFirst xs)"
proof (induction xs)
  case Nil
  show ?case by simp
next
  case (Cons x xs)
  show ?case
  proof (cases "P x")
    case True
    have "filter P (filter (\<lambda>y. y \<noteq> x) (keepFirst xs))
        = filter (\<lambda>y. y \<noteq> x) (filter P (keepFirst xs))"
      by (simp add: conj_commute)
    then show ?thesis using True Cons.IH by simp
  next
    case False
    have "filter P (filter (\<lambda>y. y \<noteq> x) (keepFirst xs)) = filter P (keepFirst xs)"
      using False by (auto intro: filter_cong)
    then show ?thesis using False Cons.IH by simp
  qed
qed

lemma keepFirst_append:
  "keepFirst (xs @ ys) = keepFirst xs @ filter (\<lambda>y. y \<notin> set xs) (keepFirst ys)"
proof (induction xs)
  case Nil
  show ?case by simp
next
  case (Cons x xs)
  have "filter (\<lambda>y. y \<noteq> x) (filter (\<lambda>y. y \<notin> set xs) (keepFirst ys))
      = filter (\<lambda>y. y \<notin> set (x # xs)) (keepFirst ys)"
    by (auto intro: filter_cong)
  then show ?case using Cons.IH by simp
qed

lemma sorted_keepFirst: "sorted (map f xs) \<Longrightarrow> sorted (map f (keepFirst xs))"
proof (induction xs)
  case Nil
  show ?case by simp
next
  case (Cons x xs)
  then have "sorted (map f (keepFirst xs))" and "\<forall>y\<in>set xs. f x \<le> f y" by auto
  then show ?case
    by (auto simp: set_keepFirst sorted_filter)
qed

lemma keepFirst_sort_key:
  fixes f :: "'a \<Rightarrow> 'k::linorder"
  shows "keepFirst (sort_key f xs) = sort_key f (keepFirst xs)"
proof (rule sym, rule properties_for_sort_key)
  show "mset (keepFirst (sort_key f xs)) = mset (keepFirst xs)"
    using set_eq_iff_mset_eq_distinct [of "keepFirst (sort_key f xs)" "keepFirst xs"]
    by (simp add: distinct_keepFirst set_keepFirst)
next
  fix k
  have "filter (\<lambda>x. f x = f k) (sort_key f xs) = filter (\<lambda>x. f x = f k) xs"
    by (rule sort_key_stable)
  then have "filter (\<lambda>x. f k = f x) (sort_key f xs) = filter (\<lambda>x. f k = f x) xs"
    by (simp add: eq_commute)
  then show "filter (\<lambda>x. f k = f x) (keepFirst (sort_key f xs))
      = filter (\<lambda>x. f k = f x) (keepFirst xs)"
    by (simp add: keepFirst_filter [symmetric])
next
  show "sorted (map f (keepFirst (sort_key f xs)))"
    by (rule sorted_keepFirst) simp
qed

lemma filter_concat_map_drop:
  "filter (\<lambda>y. y \<notin> set (f x)) (concat (map f (filter (\<lambda>y. y \<noteq> x) xs)))
     = filter (\<lambda>y. y \<notin> set (f x)) (concat (map f xs))"
  by (induction xs) auto

lemma keepFirst_concat_map:
  "keepFirst (concat (map f (keepFirst xs))) = keepFirst (concat (map f xs))"
proof (induction xs)
  case Nil
  show ?case by simp
next
  case (Cons x xs)
  let ?Q = "\<lambda>y. y \<notin> set (f x)"
  let ?K = "keepFirst xs"
  have "filter ?Q (keepFirst (concat (map f (filter (\<lambda>y. y \<noteq> x) ?K))))
      = keepFirst (filter ?Q (concat (map f (filter (\<lambda>y. y \<noteq> x) ?K))))"
    by (rule keepFirst_filter [symmetric])
  also have "\<dots> = keepFirst (filter ?Q (concat (map f ?K)))"
    by (simp only: filter_concat_map_drop)
  also have "\<dots> = filter ?Q (keepFirst (concat (map f ?K)))"
    by (rule keepFirst_filter)
  finally have "filter ?Q (keepFirst (concat (map f (filter (\<lambda>y. y \<noteq> x) ?K))))
      = filter ?Q (keepFirst (concat (map f ?K)))" .
  then show ?case using Cons.IH by (simp add: keepFirst_append)
qed

subsection \<open>The selection loop skips what it has seen\<close>

lemma rejects_selectStep: "rejects totalLeaves st opp \<Longrightarrow> selectStep totalLeaves st opp = st"
  by (auto simp: rejects_def selectStep_def Let_def)

lemma rejects_mono:
  assumes "rejects totalLeaves st opp"
  shows "rejects totalLeaves (selectStep totalLeaves st other) opp"
proof -
  from selectStep_cases [of totalLeaves st other] show ?thesis
  proof
    assume "selectStep totalLeaves st other = st"
    with assms show ?thesis by simp
  next
    assume a: "selectStep totalLeaves st other =
        \<lparr>used = fold finsert (map format_ymd (leaveDates other)) (used st),
         selected = selected st @ [other],
         usedLeaves = usedLeaves st + int (length (leaveDates other))\<rparr>
      \<and> \<not> list_ex (\<lambda>k. k |\<in>| used st) (map format_ymd (leaveDates other))
      \<and> usedLeaves st + int (length (leaveDates other)) \<le> totalLeaves"
    have "fset (used st) \<subseteq> fset (used (selectStep totalLeaves st other))"
      using a by (simp add: fset_fold_finsert)
    moreover have "usedLeaves st \<le> usedLeaves (selectStep totalLeaves st other)"
      using a by simp
    ultimately show ?thesis using assms
      unfolding rejects_def list_ex_iff by fastforce
  qed
qed

lemma rejects_after:
  assumes "leaveDates opp \<noteq> []"
  shows "rejects totalLeaves (selectStep totalLeaves st opp) opp"
proof (cases "rejects totalLeaves st opp")
  case True
  then show ?thesis by (simp add: rejects_selectStep)
next
  case False
  then have "used (selectStep totalLeaves st opp)
      = fold finsert (map format_ymd (leaveDates opp)) (used st)"
    by (auto simp: rejects_def selectStep_def Let_def)
  moreover from assms obtain l where "l \<in> set (leaveDates opp)"
    by (cases "leaveDates opp") auto
  ultimately have "list_ex (\<lambda>k. k |\<in>| used (selectStep totalLeaves st opp))
      (map format_ymd (leaveDates opp))"
    unfolding list_ex_iff by (auto simp: fset_fold_finsert)
  then show ?thesis by (simp add: rejects_def)
qed

lemma foldl_selectStep_drop:
  "rejects totalLeaves st opp \<Longrightarrow>
   foldl (selectStep totalLeaves) st (filter (\<lambda>y. y \<noteq> opp) opps)
     = foldl (selectStep totalLeaves) st opps"
proof (induction opps arbitrary: st)
  case Nil
  show ?case by simp
next
  case (Cons x opps)
  show ?case
  proof (cases "x = opp")
    case True
    then show ?thesis using Cons by (simp add: rejects_selectStep)
  next
    case False
    then show ?thesis using Cons.IH [OF rejects_mono [OF Cons.prems]] by simp
  qed
qed

lemma foldl_selectStep_keepFirst:
  "\<forall>opp\<in>set opps. leaveDates opp \<noteq> [] \<Longrightarrow>
   foldl (selectStep totalLeaves) st (keepFirst opps) = foldl (selectStep totalLeaves) st opps"
proof (induction opps arbitrary: st)
  case Nil
  show ?case by simp
next
  case (Cons x opps)
  have "rejects totalLeaves (selectStep totalLeaves st x) x"
    using Cons.prems by (simp add: rejects_after)
  then have "foldl (selectStep totalLeaves) (selectStep totalLeaves st x)
        (filter (\<lambda>y. y \<noteq> x) (keepFirst opps))
      = foldl (selectStep totalLeaves) (selectStep totalLeaves st x) (keepFirst opps)"
    by (rule foldl_selectStep_drop)
  then show ?case using Cons by simp
qed

subsection \<open>Only the calendar days of the holidays matter\<close>

lemma isHoliday_cong: "set hs' = set hs \<Longrightarrow> isHoliday d hs' = isHoliday d hs"
  by (simp add: isHoliday_iff)

lemma isWorkingDay_cong: "set hs' = set hs \<Longrightarrow> isWorkingDay d hs' = isWorkingDay d hs"
  by (simp add: isWorkingDay_def isHoliday_iff)

lemma isOffDay_cong: "set hs' = set hs \<Longrightarrow> isOffDay ls hs' d = isOffDay ls hs d"
  by (simp add: isOffDay_def isHoliday_iff)

lemma walkBefore_cong:
  "set hs' = set hs \<Longrightarrow> walkBefore d hs' before = walkBefore d hs before"
proof (induction d hs before rule: walkBefore.induct)
  case (1 d holidays before)
  show ?case
    using "1.IH" "1.prems" isWorkingDay_cong [OF "1.prems", of d]
    by (simp add: walkBefore.simps [of d holidays] walkBefore.simps [of d hs'])
qed

lemma walkAfter_cong:
  "set hs' = set hs \<Longrightarrow> walkAfter d hs' after = walkAfter d hs after"
proof (induction d hs after rule: walkAfter.induct)
  case (1 d holidays after)
  show ?case
    using "1.IH" "1.prems" isWorkingDay_cong [OF "1.prems", of d]
    by (simp add: walkAfter.simps [of d holidays] walkAfter.simps [of d hs'])
qed

lemma expandStart_cong:
  "set hs' = set hs \<Longrightarrow> expandStart ls hs' start = expandStart ls hs start"
proof (induction ls hs start rule: expandStart.induct)
  case (1 leaveSet holidays start)
  show ?case
    using "1.IH" "1.prems" isOffDay_cong [OF "1.prems", of leaveSet "addDays start (-1)"]
    by (simp add: expandStart.simps [of leaveSet holidays] expandStart.simps [of leaveSet hs'])
qed

lemma expandEnd_cong:
  "set hs' = set hs \<Longrightarrow> expandEnd ls hs' end' = expandEnd ls hs end'"
proof (induction ls hs end' rule: expandEnd.induct)
  case (1 leaveSet holidays end')
  show ?case
    using "1.IH" "1.prems" isOffDay_cong [OF "1.prems", of leaveSet "addDays end' 1"]
    by (simp add: expandEnd.simps [of leaveSet holidays] expandEnd.simps [of leaveSet hs'])
qed

lemma streakScan_cong:
  assumes "set hs' = set hs"
  shows "streakScan prev ds hs' mx streak = streakScan prev ds hs mx streak"
proof (induction ds arbitrary: prev streak)
  case Nil
  show ?case by simp
next
  case (Cons cur rest)
  show ?case using Cons.IH isWorkingDay_cong [OF assms, of cur] by simp
qed

lemma hasHolidayAnchor_cong:
  "set hs' = set hs \<Longrightarrow> hasHolidayAnchor ld hs' = hasHolidayAnchor ld hs"
  by (simp add: hasHolidayAnchor_def list_ex_iff)

lemma buildOpportunity_cong:
  assumes "set hs' = set hs"
  shows "buildOpportunity ld hs' anchor = buildOpportunity ld hs anchor"
proof -
  have "exceedsMaxConsecutiveLeaves ld hs' 3 = exceedsMaxConsecutiveLeaves ld hs 3"
    by (simp add: exceedsMaxConsecutiveLeaves_def streakScan_cong [OF assms] split: list.splits)
  moreover have "extendToFullVacation ld hs' anchor = extendToFullVacation ld hs anchor"
    by (simp add: extendToFullVacation_def expandStart_cong [OF assms] expandEnd_cong [OF assms])
  ultimately show ?thesis
    by (simp add: buildOpportunity_def hasHolidayAnchor_cong [OF assms])
qed

lemma findOpportunitiesAroundHoliday_cong:
  assumes "set hs' = set hs"
  shows "findOpportunitiesAroundHoliday h hs' = findOpportunitiesAroundHoliday h hs"
  by (simp add: findOpportunitiesAroundHoliday_def walkBefore_cong [OF assms]
      walkAfter_cong [OF assms] buildOpportunity_cong [OF assms])

subsection \<open>The result does not see duplicates\<close>

lemma normalize_dedupeHolidays:
  "map normalize (dedupeHolidays hs) = keepFirst (map normalize hs)"
proof (induction hs)
  case Nil
  show ?case by simp
next
  case (Cons h hs)
  have "map normalize (filter (\<lambda>x. \<not> isSameDay x h) (dedupeHolidays hs))
      = filter (\<lambda>y. y \<noteq> normalize h) (map normalize (dedupeHolidays hs))"
    by (simp add: filter_map comp_def isSameDay_def normalize_def)
  then show ?case using Cons.IH by simp
qed

lemma dedupeHolidays_days:
  "dayNumber ` set (dedupeHolidays hs) = dayNumber ` set hs"
proof -
  have "set (map normalize (dedupeHolidays hs)) = set (map normalize hs)"
    by (simp only: normalize_dedupeHolidays set_keepFirst)
  then have "dayNumber ` normalize ` set (dedupeHolidays hs) = dayNumber ` normalize ` set hs"
    by simp
  then show ?thesis by (simp add: image_image dayNumber_normalize)
qed

lemma dedupeHolidays_distinct: "distinct (map dayNumber (dedupeHolidays hs))"
proof (induction hs)
  case Nil
  show ?case by simp
next
  case (Cons h hs)
  have "distinct (map dayNumber (filter (\<lambda>x. \<not> isSameDay x h) (dedupeHolidays hs)))"
    using Cons.IH by (simp add: distinct_map_filter)
  then show ?case by (auto simp: isSameDay_iff)
qed

lemma sortedOpportunities_nonempty:
  "\<forall>opp\<in>set (sortedOpportunities holidays preferLonger). leaveDates opp \<noteq> []"
proof
  fix opp assume "opp \<in> set (sortedOpportunities holidays preferLonger)"
  then obtain h where "opp \<in> set (findOpportunitiesAroundHoliday h
      (sort_key getTime (map normalize holidays)))"
    unfolding set_sortedOpportunities by blast
  from findOpportunities_member [OF this] obtain ld where
    "buildOpportunity ld (sort_key getTime (map normalize holidays)) h = Some opp"
    by blast
  from buildOpportunity_Some(1,2) [OF this] show "leaveDates opp \<noteq> []" by simp
qed

lemma keepFirst_sortedOpportunities:
  "keepFirst (sortedOpportunities (dedupeHolidays holidays) preferLonger)
     = keepFirst (sortedOpportunities holidays preferLonger)"
proof -
  let ?N = "sort_key getTime (map normalize holidays)"
  let ?N' = "sort_key getTime (map normalize (dedupeHolidays holidays))"
  have N': "?N' = keepFirst ?N"
    by (simp only: normalize_dedupeHolidays keepFirst_sort_key)
  then have "set ?N' = set ?N" by (simp only: set_keepFirst)
  then have F: "findOpportunitiesAroundHoliday h ?N' = findOpportunitiesAroundHoliday h ?N" for h
    by (rule findOpportunitiesAroundHoliday_cong)
  let ?opps = "concat (map (\<lambda>h. findOpportunitiesAroundHoliday h ?N) ?N)"
  let ?opps' = "concat (map (\<lambda>h. findOpportunitiesAroundHoliday h ?N') ?N')"
  have "?opps' = concat (map (\<lambda>h. findOpportunitiesAroundHoliday h ?N) (keepFirst ?N))"
    unfolding F by (simp only: N')
  then have opps: "keepFirst ?opps' = keepFirst ?opps"
    by (simp only: keepFirst_concat_map)
  have "keepFirst (sort_key (\<lambda>o'. - totalDays o') ?opps')
      = keepFirst (sort_key (\<lambda>o'. - totalDays o') ?opps)"
    by (simp only: keepFirst_sort_key opps)
  moreover have "keepFirst (sort_key (\<lambda>o'. - efficiency o') ?opps')
      = keepFirst (sort_key (\<lambda>o'. - efficiency o') ?opps)"
    by (simp only: keepFirst_sort_key opps)
  ultimately show ?thesis by (simp add: sortedOpportunities_def Let_def)
qed

lemma finalSelection_dedupeHolidays:
  "finalSelection (dedupeHolidays holidays) totalLeaves preferLonger
     = finalSelection holidays totalLeaves preferLonger"
proof -
  let ?init = "\<lparr>used = {||}, selected = [], usedLeaves = 0\<rparr>"
  have "foldl (selectStep totalLeaves) ?init
          (sortedOpportunities (dedupeHolidays holidays) preferLonger)
      = foldl (selectStep totalLeaves) ?init
          (keepFirst (sortedOpportunities (dedupeHolidays holidays) preferLonger))"
    by (rule foldl_selectStep_keepFirst [symmetric]) (rule sortedOpportunities_nonempty)
  also have "\<dots> = foldl (selectStep totalLeaves) ?init
          (keepFirst (sortedOpportunities holidays preferLonger))"
    by (simp only: keepFirst_sortedOpportunities)
  also have "\<dots> = foldl (selectStep totalLeaves) ?init
          (sortedOpportunities holidays preferLonger)"
    by (rule foldl_selectStep_keepFirst) (rule sortedOpportunities_nonempty)
  finally show ?thesis by (simp only: finalSelection_def)
qed

lemma dedupeHolidays_empty: "length (dedupeHolidays hs) = 0 \<longleftrightarrow> length hs = 0"
  by (cases hs) simp_all

lemma normalize_by_day: "normalize d = Date (dayNumber d * MS_PER_DAY)"
  by (simp add: normalize_def startOfDay_def)

lemma normalized_same_days:
  assumes "dayNumber ` set hs' = dayNumber ` set hs"
  shows "sort_key getTime (map normalize (dedupeHolidays hs'))
       = sort_key getTime (map normalize (dedupeHolidays hs))"
proof -
  let ?A = "sort_key getTime (map normalize (dedupeHolidays hs))"
  let ?A' = "sort_key getTime (map normalize (dedupeHolidays hs'))"
  have set_of: "set (sort_key getTime (map normalize (dedupeHolidays xs)))
      = (\<lambda>n. Date (n * MS_PER_DAY)) ` dayNumber ` set xs" for xs
  proof -
    have "set (sort_key getTime (map normalize (dedupeHolidays xs)))
        = normalize ` set (dedupeHolidays xs)"
      by simp
    also have "\<dots> = (\<lambda>n. Date (n * MS_PER_DAY)) ` dayNumber ` set (dedupeHolidays xs)"
      by (simp add: image_image normalize_by_day)
    finally show ?thesis by (simp only: dedupeHolidays_days)
  qed
  have dist: "distinct (map getTime (sort_key getTime (map normalize (dedupeHolidays xs))))" for xs
  proof -
    have "distinct (map normalize (dedupeHolidays xs))"
      by (simp only: normalize_dedupeHolidays distinct_keepFirst)
    then have "distinct (sort_key getTime (map normalize (dedupeHolidays xs)))"
      by (simp only: distinct_sort)
    then show ?thesis
      by (simp add: distinct_map inj_on_def Date.expand)
  qed
  have "sorted (map getTime ?A')" and "sorted (map getTime ?A)"
    by (rule sorted_sort_key)+
  moreover have "set (map getTime ?A') = set (map getTime ?A)"
    using assms by (simp only: set_map set_of)
  ultimately have "map getTime ?A' = map getTime ?A"
    using dist [of hs'] dist [of hs] by (intro sorted_distinct_set_unique)
  moreover have "inj getTime" by (simp add: inj_on_def Date.expand)
  ultimately show ?thesis by (simp only: inj_map_eq_map)
qed

lemma optimizeLeaves_normalized_cong:
  assumes "sort_key getTime (map normalize a) = sort_key getTime (map normalize b)"
  shows "optimizeLeaves a totalLeaves sandwichRule preferLonger
       = optimizeLeaves b totalLeaves sandwichRule preferLonger"
proof -
  have "length (sort_key getTime (map normalize a)) = length (sort_key getTime (map normalize b))"
    by (simp only: assms)
  then have "length a = length b" by simp
  then show ?thesis by (simp add: optimizeLeaves_def Let_def assms)
qed

text \<open>
  C2: \<^const>\<open>optimizeLeaves\<close> returns the same result for a holiday list and for that list
  with duplicate calendar days removed. \<^const>\<open>dedupeHolidays\<close> keeps one date of each
  calendar day (its days are distinct and are the days of the list); more generally, any two
  lists with the same set of calendar days give the same result. The optimizer does not remove
  duplicates itself: it normalizes and sorts, a duplicate holiday yields the same opportunities
  again, and the selection loop rejects an opportunity it has already seen.
\<close>

theorem C2_duplicate_holidays:
  "optimizeLeaves (dedupeHolidays holidays) totalLeaves sandwichRule preferLonger
     = optimizeLeaves holidays totalLeaves sandwichRule preferLonger
   \<and> distinct (map dayNumber (dedupeHolidays holidays))
   \<and> dayNumber ` set (dedupeHolidays holidays) = dayNumber ` set holidays
   \<and> (\<forall>others. dayNumber ` set others = dayNumber ` set holidays \<longrightarrow>
         optimizeLeaves others totalLeaves sandwichRule preferLonger
           = optimizeLeaves holidays totalLeaves sandwichRule preferLonger)"
proof -
  have dedupe: "optimizeLeaves (dedupeHolidays hs) totalLeaves sandwichRule preferLonger
     = optimizeLeaves hs totalLeaves sandwichRule preferLonger" for hs
    by (simp only: optimizeLeaves_eq finalSelection_dedupeHolidays dedupeHolidays_empty)
  have "optimizeLeaves others totalLeaves sandwichRule preferLonger
      = optimizeLeaves holidays totalLeaves sandwichRule preferLonger"
    if "dayNumber ` set others = dayNumber ` set holidays" for others
  proof -
    have "optimizeLeaves (dedupeHolidays others) totalLeaves sandwichRule preferLonger
        = optimizeLeaves (dedupeHolidays holidays) totalLeaves sandwichRule preferLonger"
      by (rule optimizeLeaves_normalized_cong) (rule normalized_same_days [OF that])
    then show ?thesis by (simp only: dedupe)
  qed
  then show ?thesis
    using dedupe [of holidays] dedupeHolidays_distinct [of holidays]
      dedupeHolidays_days [of holidays] by blast
qed

theorem C2_duplicate_holidays_witness:
  "dedupeHolidays [Date 1735689600000, Date 1735862400000, Date 1735689600001, Date 1735900000000]
     = [Date 1735689600000, Date 1735862400000]
   \<and> optimizeLeaves [Date 1735689600000, Date 1735862400000, Date 1735689600001,
        Date 1735900000000] 10 False False
     = optimizeLeaves [Date 1735689600000, Date 1735862400000] 10 False False
   \<and> leavesRemaining (optimizeLeaves [Date 1735689600000, Date 1735862400000] 10 False False) = 7"
proof -
  have d: "dedupeHolidays
      [Date 1735689600000, Date 1735862400000, Date 1735689600001, Date 1735900000000]
     = [Date 1735689600000, Date 1735862400000]"
    by code_simp
  have r: "leavesRemaining
      (optimizeLeaves [Date 1735689600000, Date 1735862400000] 10 False False) = 7"
    by code_simp
  from C2_duplicate_holidays [of "[Date 1735689600000, Date 1735862400000, Date 1735689600001,
      Date 1735900000000]" 10 False False, THEN conjunct1] d r
  show ?thesis by simp
qed

end
